theory Spec2Isabelle
  imports Main "HOL-Library.Word" "HOL-Library.AList"
begin

text \<open>
  A shallow embedding of the snapshot garbage collector: the journal catalog with its
  text format, the storage and elector interfaces, and the engine's pass
  (\<open>RunOnce\<close>) with its live-set computation, tombstone stage and hard-delete stage.
  The definitions follow the C++ sources function by function; the properties are
  stated and proved in the last section.
\<close>

section \<open>The C++ standard library, as far as the catalog and the engine use it\<close>

text \<open>
  Strings are byte lists. The characters the journal format gives a meaning to are
  written by their codes, so that no escape convention of the logic's own string
  syntax is involved.
\<close>

definition c_nl :: char where "c_nl = CHR 0x0A"
definition c_cr :: char where "c_cr = CHR 0x0D"
definition c_bs :: char where "c_bs = CHR 0x5C"
definition c_pipe :: char where "c_pipe = CHR 0x7C"
definition c_sp :: char where "c_sp = CHR 0x20"
definition c_minus :: char where "c_minus = CHR 0x2D"
definition c_plus :: char where "c_plus = CHR 0x2B"

text \<open>\<open>std::isspace\<close> in the C locale: space, \<open>\t \n \v \f \r\<close>.\<close>

definition isspace :: "char \<Rightarrow> bool" where
  "isspace c = (c = CHR 0x20 \<or> c = CHR 0x09 \<or> c = CHR 0x0A \<or> c = CHR 0x0B
     \<or> c = CHR 0x0C \<or> c = CHR 0x0D)"

definition isdigit :: "char \<Rightarrow> bool" where
  "isdigit c = (48 \<le> (of_char c :: nat) \<and> (of_char c :: nat) \<le> 57)"

definition digit_val :: "char \<Rightarrow> nat" where
  "digit_val c = (of_char c :: nat) - 48"

definition digit_char :: "nat \<Rightarrow> char" where
  "digit_char d = char_of (48 + d)"

text \<open>\<open>std::to_string\<close> on an unsigned and on a signed integer: decimal, no padding.\<close>

function to_string_nat :: "nat \<Rightarrow> string" where
  "to_string_nat n =
     (if n < 10 then [digit_char n] else to_string_nat (n div 10) @ [digit_char (n mod 10)])"
  by pat_completeness auto
termination
  by (relation "measure (\<lambda>n. n)") auto

declare to_string_nat.simps [simp del]

definition to_string :: "int \<Rightarrow> string" where
  "to_string i = (if i < 0 then c_minus # to_string_nat (nat (- i)) else to_string_nat (nat i))"

text \<open>
  The exceptions the catalog can meet. \<open>Enum_out_of_range\<close> is not a C++ exception: the
  cast \<open>(SnapshotState)k\<close> of an integer that is no enumerator yields a value outside
  the enumeration, which the datatype of states below does not contain; the model
  reports it instead of inventing a state. The code goes on with that value; the
  model's replay ends at such a line, so it says nothing about what the code does
  after it. \<open>Indeterminate_value\<close> likewise marks a read of a variable that was
  never assigned.
\<close>

datatype exn = Invalid_argument | Out_of_range | Enum_out_of_range int | Indeterminate_value

text \<open>
  The \<open>strtol\<close> family that \<open>std::stoll\<close>, \<open>std::stoull\<close>, \<open>std::stoi\<close> and
  \<open>std::stoul\<close> wrap, base 10: leading white space is skipped, one sign is accepted,
  the longest run of digits is the number and what follows is ignored. No digit at
  all is \<open>std::invalid_argument\<close>; a value outside the target type is
  \<open>std::out_of_range\<close>.
\<close>

fun digits_value :: "nat \<Rightarrow> string \<Rightarrow> nat" where
  "digits_value acc [] = acc"
| "digits_value acc (c # cs) =
     (if isdigit c then digits_value (acc * 10 + digit_val c) cs else acc)"

definition strto :: "string \<Rightarrow> (bool \<times> nat) option" where
  "strto s =
     (let s1 = dropWhile isspace s;
          neg = (case s1 of [] \<Rightarrow> False | c # _ \<Rightarrow> c = c_minus);
          s2 = (case s1 of [] \<Rightarrow> [] | c # r \<Rightarrow> if c = c_minus \<or> c = c_plus then r else s1)
      in case s2 of
           [] \<Rightarrow> None
         | c # _ \<Rightarrow> if isdigit c then Some (neg, digits_value 0 s2) else None)"

definition stoll :: "string \<Rightarrow> exn + int" where
  "stoll s =
     (case strto s of
        None \<Rightarrow> Inl Invalid_argument
      | Some (neg, v) \<Rightarrow>
          (let i = (if neg then - int v else int v)
           in if - (2 ^ 63) \<le> i \<and> i < 2 ^ 63 then Inr i else Inl Out_of_range))"

definition stoi :: "string \<Rightarrow> exn + int" where
  "stoi s =
     (case strto s of
        None \<Rightarrow> Inl Invalid_argument
      | Some (neg, v) \<Rightarrow>
          (let i = (if neg then - int v else int v)
           in if - (2 ^ 31) \<le> i \<and> i < 2 ^ 31 then Inr i else Inl Out_of_range))"

text \<open>
  \<open>strtoull\<close> negates in the unsigned type when the text has a minus sign.
  \<open>unsigned long\<close> is taken to be 64 bits wide (LP64), so \<open>std::stoul\<close> is the same
  function; the caller's cast to \<open>std::uint32_t\<close> keeps the low 32 bits.
\<close>

definition stoull :: "string \<Rightarrow> exn + 64 word" where
  "stoull s =
     (case strto s of
        None \<Rightarrow> Inl Invalid_argument
      | Some (neg, v) \<Rightarrow>
          if v < 2 ^ 64 then Inr (if neg then - (word_of_nat v) else word_of_nat v)
          else Inl Out_of_range)"

definition stoul :: "string \<Rightarrow> exn + 64 word" where
  "stoul s = stoull s"

text \<open>Sequencing of statements that may throw.\<close>

definition ebind :: "exn + 'a \<Rightarrow> ('a \<Rightarrow> exn + 'b) \<Rightarrow> exn + 'b" where
  "ebind r f = (case r of Inl e \<Rightarrow> Inl e | Inr x \<Rightarrow> f x)"

text \<open>\<open>std::vector::at\<close>.\<close>

definition at :: "'a list \<Rightarrow> nat \<Rightarrow> exn + 'a" where
  "at xs k = (if k < length xs then Inr (xs ! k) else Inl Out_of_range)"

section \<open>Types (snapshot\_gc\_types.hpp)\<close>

text \<open>
  A \<open>TimePoint\<close> is the tick count of \<open>std::chrono::system_clock\<close> since the epoch.
  The tick is taken to be a nanosecond (libstdc++ on Linux). Durations of the option
  structs keep the unit of their C++ type (hours, seconds) and are converted where
  the code adds them to a time point. The 64-bit range of the counts is not
  modelled: signed overflow in chrono arithmetic is undefined behaviour.
\<close>

type_synonym TimePoint = int

definition ticks_per_ms :: int where "ticks_per_ms = 1000000"

definition seconds_to_ticks :: "int \<Rightarrow> int" where
  "seconds_to_ticks s = s * 1000 * ticks_per_ms"

definition hours_to_ticks :: "int \<Rightarrow> int" where
  "hours_to_ticks h = h * 3600 * 1000 * ticks_per_ms"

datatype SnapshotState = Active | Tombstoned | Deleting | Deleted | Quarantined

record SnapshotMeta =
  id' :: string
  created :: TimePoint
  sizeBytes :: "64 word"
  state :: SnapshotState
  parentId :: "string option"
  tags :: "string set"
  leaseCount :: "32 word"
  lastAccess :: TimePoint
  hardDeleteAfter :: "TimePoint option"
  deleteFailures :: "32 word"
  nextRetryAfter :: "TimePoint option"
  lastError :: string

text \<open>A default-constructed \<open>SnapshotMeta\<close>.\<close>

definition SnapshotMeta0 :: SnapshotMeta where
  "SnapshotMeta0 =
     \<lparr>id' = [], created = 0, sizeBytes = 0, state = Active, parentId = None, tags = {},
      leaseCount = 0, lastAccess = 0, hardDeleteAfter = None, deleteFailures = 0,
      nextRetryAfter = None, lastError = []\<rparr>"

record RetentionPolicy =
  keepLastN :: nat
  maxAge :: int
  enableCheckpointing :: bool
  checkpointInterval :: int

record GCOptions =
  dryRun :: bool
  enableTombstoneStage :: bool
  enableHardDeleteStage :: bool
  inactiveTimeout :: int
  gracePeriod :: int
  maxDeletesPerRun :: nat
  batchDeleteSize :: nat
  maxDeleteFailuresBeforeQuarantine :: "32 word"
  baseRetryBackoff :: int

record GCEvent =
  when' :: TimePoint
  snapshotId :: string
  type' :: string
  details :: string

section \<open>The journal catalog (journal\_catalog.hpp)\<close>

fun Escape :: "string \<Rightarrow> string" where
  "Escape [] = []"
| "Escape (c # cs) =
     (if c = c_nl then c_bs # CHR ''n'' # Escape cs
      else if c = c_cr then c_bs # CHR ''r'' # Escape cs
      else if c = c_bs then c_bs # c_bs # Escape cs
      else c # Escape cs)"

fun Unescape :: "string \<Rightarrow> string" where
  "Unescape [] = []"
| "Unescape [c] = [c]"
| "Unescape (c # n # cs) =
     (if c = c_bs then
        (if n = CHR ''n'' then c_nl # Unescape cs
         else if n = CHR ''r'' then c_cr # Unescape cs
         else if n = c_bs then c_bs # Unescape cs
         else c # Unescape (n # cs))
      else c # Unescape (n # cs))"

text \<open>
  \<open>toMs\<close> is \<open>duration_cast<milliseconds>\<close>, an integer division that truncates
  towards zero; \<open>fromMs\<close> is the exact conversion back to ticks.
\<close>

definition toMs :: "TimePoint \<Rightarrow> int" where
  "toMs t = sgn t * (\<bar>t\<bar> div ticks_per_ms)"

definition fromMs :: "int \<Rightarrow> TimePoint" where
  "fromMs ms = ms * ticks_per_ms"

definition int_of_state :: "SnapshotState \<Rightarrow> int" where
  "int_of_state s =
     (case s of Active \<Rightarrow> 0 | Tombstoned \<Rightarrow> 1 | Deleting \<Rightarrow> 2 | Deleted \<Rightarrow> 3 | Quarantined \<Rightarrow> 4)"

definition state_of_int :: "int \<Rightarrow> exn + SnapshotState" where
  "state_of_int k =
     (if k = 0 then Inr Active else if k = 1 then Inr Tombstoned
      else if k = 2 then Inr Deleting else if k = 3 then Inr Deleted
      else if k = 4 then Inr Quarantined else Inl (Enum_out_of_range k))"

definition Serialize :: "SnapshotMeta \<Rightarrow> string" where
  "Serialize m =
     (let hd = (case hardDeleteAfter m of Some t \<Rightarrow> toMs t | None \<Rightarrow> - 1);
          nr = (case nextRetryAfter m of Some t \<Rightarrow> toMs t | None \<Rightarrow> - 1)
      in id' m @ [c_pipe] @ to_string (toMs (created m)) @ [c_pipe]
         @ to_string_nat (unat (sizeBytes m)) @ [c_pipe]
         @ to_string (int_of_state (state m)) @ [c_pipe]
         @ to_string_nat (unat (leaseCount m)) @ [c_pipe]
         @ to_string (toMs (lastAccess m)) @ [c_pipe]
         @ to_string hd @ [c_pipe]
         @ to_string_nat (unat (deleteFailures m)) @ [c_pipe]
         @ to_string nr @ [c_pipe]
         @ Escape (lastError m))"

text \<open>The loop of \<open>Deserialize\<close> that cuts the line at every pipe character.\<close>

fun split_parts :: "string \<Rightarrow> string \<Rightarrow> string list" where
  "split_parts cur [] = [cur]"
| "split_parts cur (c # cs) =
     (if c = c_pipe then cur # split_parts [] cs else split_parts (cur @ [c]) cs)"

definition Deserialize :: "string \<Rightarrow> exn + SnapshotMeta" where
  "Deserialize line =
     (let parts = split_parts [] line; m = SnapshotMeta0 in
      ebind (at parts 0) (\<lambda>p0. let m = m\<lparr>id' := p0\<rparr> in
      ebind (at parts 1) (\<lambda>p1. ebind (stoll p1) (\<lambda>c. let m = m\<lparr>created := fromMs c\<rparr> in
      ebind (at parts 2) (\<lambda>p2. ebind (stoull p2) (\<lambda>sz. let m = m\<lparr>sizeBytes := sz\<rparr> in
      ebind (at parts 3) (\<lambda>p3. ebind (stoi p3) (\<lambda>k. ebind (state_of_int k) (\<lambda>st.
        let m = m\<lparr>state := st\<rparr> in
      ebind (at parts 4) (\<lambda>p4. ebind (stoul p4) (\<lambda>lc. let m = m\<lparr>leaseCount := ucast lc\<rparr> in
      ebind (at parts 5) (\<lambda>p5. ebind (stoll p5) (\<lambda>la. let m = m\<lparr>lastAccess := fromMs la\<rparr> in
      ebind (at parts 6) (\<lambda>p6. ebind (stoll p6) (\<lambda>hd.
        let m = (if hd \<ge> 0 then m\<lparr>hardDeleteAfter := Some (fromMs hd)\<rparr> else m) in
      ebind (at parts 7) (\<lambda>p7. ebind (stoul p7) (\<lambda>df. let m = m\<lparr>deleteFailures := ucast df\<rparr> in
      ebind (at parts 8) (\<lambda>p8. ebind (stoll p8) (\<lambda>nr.
        let m = (if nr \<ge> 0 then m\<lparr>nextRetryAfter := Some (fromMs nr)\<rparr> else m) in
      ebind (at parts 9) (\<lambda>p9.
        Inr (m\<lparr>lastError := Unescape p9\<rparr>)))))))))))))))))))))"

text \<open>
  The journal file is its contents; a file that does not exist reads like an empty
  one. \<open>Append\<close> opens the file for appending and writes the line; the code checks no
  stream state, so a failed write is silent, and the model takes writes to succeed.
\<close>

type_synonym items = "(string \<times> SnapshotMeta) list"

record JournalCatalog =
  items :: items
  journal :: string

definition Append :: "string \<Rightarrow> string \<Rightarrow> string" where
  "Append file rec = file @ rec @ [c_nl]"

text \<open>The three kinds of journal line, as the mutating operations build them.\<close>

definition STATE_line :: "string \<Rightarrow> SnapshotState \<Rightarrow> SnapshotState \<Rightarrow> string" where
  "STATE_line i expected desired =
     ''STATE '' @ i @ '' '' @ to_string (int_of_state expected) @ '' ''
       @ to_string (int_of_state desired)"

definition UPSERT_line :: "SnapshotMeta \<Rightarrow> string" where
  "UPSERT_line m = ''UPSERT '' @ Serialize m"

definition EVENT_line :: "GCEvent \<Rightarrow> string" where
  "EVENT_line e = ''EVENT '' @ snapshotId e @ '' '' @ type' e @ '' '' @ Escape (details e)"

text \<open>
  The \<open>unordered_map\<close> is an association list: its order is the map's iteration
  order, which the standard leaves open; an assignment to a key that is present
  keeps the entry's place, and a new key is put last.
\<close>

definition ListAll :: "JournalCatalog \<Rightarrow> SnapshotMeta list" where
  "ListAll c = map snd (items c)"

definition Get :: "JournalCatalog \<Rightarrow> string \<Rightarrow> SnapshotMeta option" where
  "Get c i = map_of (items c) i"

definition TransitionState ::
  "JournalCatalog \<Rightarrow> string \<Rightarrow> SnapshotState \<Rightarrow> SnapshotState \<Rightarrow> bool \<times> JournalCatalog" where
  "TransitionState c i expected desired =
     (case map_of (items c) i of
        None \<Rightarrow> (False, c)
      | Some m \<Rightarrow>
          if state m \<noteq> expected then (False, c)
          else (True,
            c\<lparr>items := AList.map_entry i (\<lambda>m. m\<lparr>state := desired\<rparr>) (items c),
              journal := Append (journal c) (STATE_line i expected desired)\<rparr>))"

definition Upsert :: "JournalCatalog \<Rightarrow> SnapshotMeta \<Rightarrow> bool \<times> JournalCatalog" where
  "Upsert c m =
     (True,
      c\<lparr>items := AList.update (id' m) m (items c),
        journal := Append (journal c) (UPSERT_line m)\<rparr>)"

definition RecordEvent :: "JournalCatalog \<Rightarrow> GCEvent \<Rightarrow> JournalCatalog" where
  "RecordEvent c e =
     c\<lparr>journal := Append (journal c) (EVENT_line e)\<rparr>"

text \<open>\<open>std::getline\<close> in a loop: the lines of the file, a last line without a newline
  included when it is not empty.\<close>

fun getlines :: "string \<Rightarrow> string \<Rightarrow> string list" where
  "getlines cur [] = (if cur = [] then [] else [cur])"
| "getlines cur (c # cs) =
     (if c = c_nl then cur # getlines [] cs else getlines (cur @ [c]) cs)"

text \<open>\<open>line.rfind(p, 0) == 0\<close>: the line starts with \<open>p\<close>.\<close>

definition starts_with :: "string \<Rightarrow> string \<Rightarrow> bool" where
  "starts_with line p = (take (length p) line = p)"

text \<open>
  \<open>operator>>\<close> of an input stream. Into a string: white space is skipped and the run
  of other characters is taken; at the end of input the stream fails. Into an
  \<open>int\<close>: white space is skipped; at the end of input the stream fails and nothing
  is stored; otherwise one sign and digits are read, with no digit 0 is stored and
  the stream fails, out of range the nearest bound is stored and the stream fails.
  Once the stream has failed, later extractions store nothing. \<open>extract_int\<close> returns
  the value stored, if any, whether the stream is still good, and the rest of the
  input.
\<close>

definition extract_word :: "string \<Rightarrow> (string \<times> string) option" where
  "extract_word s =
     (let s1 = dropWhile isspace s
      in if s1 = [] then None
         else Some (takeWhile (\<lambda>c. \<not> isspace c) s1, dropWhile (\<lambda>c. \<not> isspace c) s1))"

definition extract_int :: "string \<Rightarrow> int option \<times> bool \<times> string" where
  "extract_int s =
     (let s1 = dropWhile isspace s;
          neg = (case s1 of [] \<Rightarrow> False | c # _ \<Rightarrow> c = c_minus);
          s2 = (case s1 of [] \<Rightarrow> [] | c # r \<Rightarrow> if c = c_minus \<or> c = c_plus then r else s1);
          ds = takeWhile isdigit s2;
          rest = dropWhile isdigit s2;
          i = (if neg then - int (digits_value 0 ds) else int (digits_value 0 ds))
      in if s1 = [] then (None, False, [])
         else if ds = [] then (Some 0, False, rest)
         else if i > 2 ^ 31 - 1 then (Some (2 ^ 31 - 1), False, rest)
         else if i < - (2 ^ 31) then (Some (- (2 ^ 31)), False, rest)
         else (Some i, True, rest))"

text \<open>
  \<open>iss >> tag >> id >> expected >> desired\<close> on a \<open>STATE\<close> line: the id read, and the
  value of \<open>desired\<close> when the statement assigned one (\<open>expected\<close> and \<open>desired\<close> are
  declared without an initial value).
\<close>

definition parse_STATE :: "string \<Rightarrow> string \<times> int option" where
  "parse_STATE line =
     (case extract_word line of
        None \<Rightarrow> ([], None)
      | Some (tag, r1) \<Rightarrow>
          (case extract_word r1 of
             None \<Rightarrow> ([], None)
           | Some (i, r2) \<Rightarrow>
               (case extract_int r2 of
                  (expected, ok, r3) \<Rightarrow>
                    if \<not> ok then (i, None)
                    else (case extract_int r3 of (desired, _, _) \<Rightarrow> (i, desired)))))"

definition replay_line :: "string \<Rightarrow> items \<Rightarrow> exn + items" where
  "replay_line line its =
     (if starts_with line ''UPSERT '' then
        ebind (Deserialize (drop 7 line)) (\<lambda>m. Inr (AList.update (id' m) m its))
      else if starts_with line ''STATE '' then
        (case parse_STATE line of
           (i, desired) \<Rightarrow>
             (case map_of its i of
                None \<Rightarrow> Inr its
              | Some _ \<Rightarrow>
                  (case desired of
                     None \<Rightarrow> Inl Indeterminate_value
                   | Some k \<Rightarrow>
                       ebind (state_of_int k)
                         (\<lambda>st. Inr (AList.map_entry i (\<lambda>m. m\<lparr>state := st\<rparr>) its)))))
      else Inr its)"

fun replay_lines :: "string list \<Rightarrow> items \<Rightarrow> exn + items" where
  "replay_lines [] its = Inr its"
| "replay_lines (l # ls) its = ebind (replay_line l its) (replay_lines ls)"

definition Replay :: "string \<Rightarrow> exn + items" where
  "Replay file = replay_lines (getlines [] file) []"

text \<open>The constructor: the catalog opened on a journal file.\<close>

definition JournalCatalog_open :: "string \<Rightarrow> exn + JournalCatalog" where
  "JournalCatalog_open file = ebind (Replay file) (\<lambda>its. Inr \<lparr>items = its, journal = file\<rparr>)"

section \<open>Interfaces (snapshot\_gc\_interfaces.hpp)\<close>

text \<open>
  What lies outside the catalog (the payload store, the leader lock, the corruption
  tracker) is a state of type \<open>'e\<close> that the collaborators' operations transform.
  \<open>DeleteSnapshotPayloadBatch\<close> takes \<open>failed\<close> and \<open>err\<close> as they are on entry and
  returns them as they are on exit, with the result.
\<close>

type_synonym 'e batch_delete =
  "string list \<Rightarrow> string list \<Rightarrow> string \<Rightarrow> 'e \<Rightarrow> (bool \<times> string list \<times> string) \<times> 'e"

record 'e ILeaderElector =
  TryAcquire :: "'e \<Rightarrow> bool \<times> 'e"
  Release :: "'e \<Rightarrow> 'e"

text \<open>
  The default \<open>IStorageBackend::DeleteSnapshotPayloadBatch\<close>, over the backend's single
  delete (which returns its result and the text it left in its \<open>err\<close> argument; the
  loop passes a fresh empty string each time and drops it).
\<close>

type_synonym 'e single_delete = "string \<Rightarrow> string \<Rightarrow> 'e \<Rightarrow> (bool \<times> string) \<times> 'e"

fun batch_loop :: "'e single_delete \<Rightarrow> string list \<Rightarrow> bool \<times> string list \<times> 'e
    \<Rightarrow> bool \<times> string list \<times> 'e" where
  "batch_loop del [] acc = acc"
| "batch_loop del (i # ids) (allOk, failed, env) =
     (case del i [] env of
        ((ok, e), env') \<Rightarrow>
          if \<not> ok then batch_loop del ids (False, failed @ [i], env')
          else batch_loop del ids (allOk, failed, env'))"

definition DeleteSnapshotPayloadBatch_default :: "'e single_delete \<Rightarrow> 'e batch_delete" where
  "DeleteSnapshotPayloadBatch_default del ids failed err env =
     (case batch_loop del ids (True, failed, env) of
        (allOk, failed', env') \<Rightarrow> ((allOk, failed', []), env'))"

section \<open>The filesystem backend (filesystem\_storage.hpp)\<close>

text \<open>
  \<open>std::filesystem\<close> is outside the repository: \<open>exists\<close> and \<open>remove_all\<close> are
  parameters, each returning either the text of the exception it throws or its
  result; \<open>root_ / snapshotId\<close> is the parameter \<open>path_of\<close>.
\<close>

record 'e filesystem =
  fs_exists :: "string \<Rightarrow> 'e \<Rightarrow> string + bool"
  fs_remove_all :: "string \<Rightarrow> 'e \<Rightarrow> (string + unit) \<times> 'e"
  path_of :: "string \<Rightarrow> string"

definition FilesystemStorage_DeleteSnapshotPayload :: "'e filesystem \<Rightarrow> 'e single_delete" where
  "FilesystemStorage_DeleteSnapshotPayload fs sid err env =
     (let p = path_of fs sid in
      case fs_exists fs p env of
        Inl what \<Rightarrow> ((False, what), env)
      | Inr False \<Rightarrow> ((True, err), env)
      | Inr True \<Rightarrow>
          (case fs_remove_all fs p env of
             (Inl what, env') \<Rightarrow> ((False, what), env')
           | (Inr _, env') \<Rightarrow> ((True, []), env')))"

fun FilesystemStorage_loop :: "'e filesystem \<Rightarrow> string list \<Rightarrow> bool \<times> string list \<times> 'e
    \<Rightarrow> bool \<times> string list \<times> 'e" where
  "FilesystemStorage_loop fs [] acc = acc"
| "FilesystemStorage_loop fs (i # ids) (ok, failed, env) =
     (case FilesystemStorage_DeleteSnapshotPayload fs i [] env of
        ((r, e), env') \<Rightarrow>
          if \<not> r then FilesystemStorage_loop fs ids (False, failed @ [i], env')
          else FilesystemStorage_loop fs ids (ok, failed, env'))"

definition FilesystemStorage_DeleteSnapshotPayloadBatch :: "'e filesystem \<Rightarrow> 'e batch_delete" where
  "FilesystemStorage_DeleteSnapshotPayloadBatch fs ids failed err env =
     (case FilesystemStorage_loop fs ids (True, failed, env) of
        (ok, failed', env') \<Rightarrow> ((ok, failed', []), env'))"

section \<open>The engine (snapshot\_gc.hpp)\<close>

record GCMetrics =
  scanned :: nat
  tombstoned :: nat
  deleted :: nat
  quarantined :: nat
  deleteFailed :: nat
  inactiveLoadedSignals :: nat

definition GCMetrics0 :: GCMetrics where
  "GCMetrics0 = \<lparr>scanned = 0, tombstoned = 0, deleted = 0, quarantined = 0, deleteFailed = 0,
     inactiveLoadedSignals = 0\<rparr>"

text \<open>
  The collaborators of a \<open>SnapshotGC\<close>. The catalog is the journal catalog, the one
  implementation of \<open>ISnapshotCatalog\<close> in the repository; \<open>leader\<close> and \<open>corruption\<close>
  are \<open>None\<close> for a null pointer.
\<close>

record 'e SnapshotGC =
  policy :: RetentionPolicy
  opts :: GCOptions
  storage :: "'e batch_delete"
  leader :: "'e ILeaderElector option"
  corruption :: "(string \<Rightarrow> 'e \<Rightarrow> 'e) option"

text \<open>
  The state a pass runs in: the catalog, the state of the collaborators outside it,
  the clock (\<open>clock w n\<close> is what the \<open>n\<close>-th call of \<open>Clock::now()\<close> returns, \<open>reads\<close>
  counts the calls made) and, as a ghost field, the calls the engine has made on its
  collaborators, oldest first.
\<close>

datatype call =
    Call_TryAcquire bool
  | Call_Release
  | Call_ListAll
  | Call_Get string
  | Call_TransitionState string SnapshotState SnapshotState bool
  | Call_Upsert SnapshotMeta
  | Call_RecordEvent GCEvent
  | Call_DeleteSnapshotPayloadBatch "string list"
  | Call_ForgetCorruptionForSnapshot string

record 'e world =
  catalog :: JournalCatalog
  env :: 'e
  clock :: "nat \<Rightarrow> TimePoint"
  reads :: nat
  calls :: "call list"

definition record_call :: "call \<Rightarrow> 'e world \<Rightarrow> 'e world" where
  "record_call c w = w\<lparr>calls := calls w @ [c]\<rparr>"

definition Clock_now :: "'e world \<Rightarrow> TimePoint \<times> 'e world" where
  "Clock_now w = (clock w (reads w), w\<lparr>reads := Suc (reads w)\<rparr>)"

definition catalog_ListAll :: "'e world \<Rightarrow> SnapshotMeta list \<times> 'e world" where
  "catalog_ListAll w = (ListAll (catalog w), record_call Call_ListAll w)"

definition catalog_Get :: "string \<Rightarrow> 'e world \<Rightarrow> SnapshotMeta option \<times> 'e world" where
  "catalog_Get i w = (Get (catalog w) i, record_call (Call_Get i) w)"

definition catalog_TransitionState ::
  "string \<Rightarrow> SnapshotState \<Rightarrow> SnapshotState \<Rightarrow> 'e world \<Rightarrow> bool \<times> 'e world" where
  "catalog_TransitionState i expected desired w =
     (case TransitionState (catalog w) i expected desired of
        (ok, c) \<Rightarrow> (ok, record_call (Call_TransitionState i expected desired ok) (w\<lparr>catalog := c\<rparr>)))"

definition catalog_Upsert :: "SnapshotMeta \<Rightarrow> 'e world \<Rightarrow> bool \<times> 'e world" where
  "catalog_Upsert m w =
     (case Upsert (catalog w) m of
        (ok, c) \<Rightarrow> (ok, record_call (Call_Upsert m) (w\<lparr>catalog := c\<rparr>)))"

definition catalog_RecordEvent :: "GCEvent \<Rightarrow> 'e world \<Rightarrow> 'e world" where
  "catalog_RecordEvent e w =
     record_call (Call_RecordEvent e) (w\<lparr>catalog := RecordEvent (catalog w) e\<rparr>)"

definition storage_DeleteSnapshotPayloadBatch ::
  "'e SnapshotGC \<Rightarrow> string list \<Rightarrow> string list \<Rightarrow> string \<Rightarrow> 'e world
    \<Rightarrow> (bool \<times> string list \<times> string) \<times> 'e world" where
  "storage_DeleteSnapshotPayloadBatch gc ids failed err w =
     (case storage gc ids failed err (env w) of
        (r, e) \<Rightarrow> (r, record_call (Call_DeleteSnapshotPayloadBatch ids) (w\<lparr>env := e\<rparr>)))"

text \<open>
  \<open>MarkLiveWithParents\<close> recurses along \<open>parentId\<close> through the catalog and stops at an
  id that is live already; every call but the first is on a record of the catalog,
  and each inserts an id that was not live, so the ids of the catalog that are not
  live get fewer.
\<close>

function MarkLiveWithParents ::
  "SnapshotMeta \<Rightarrow> string set \<Rightarrow> 'e world \<Rightarrow> string set \<times> 'e world" where
  "MarkLiveWithParents s live w =
     (if id' s \<in> live then (live, w)
      else
        (case parentId s of
           None \<Rightarrow> (insert (id' s) live, w)
         | Some pid \<Rightarrow>
             (case catalog_Get pid w of
                (None, w') \<Rightarrow> (insert (id' s) live, w')
              | (Some p, w') \<Rightarrow> MarkLiveWithParents p (insert (id' s) live) w')))"
  by pat_completeness auto
termination
proof (relation "measure (\<lambda>(s, live, w).
    card (insert (id' s) (id' ` snd ` set (items (catalog w))) - live))")
  show "wf (measure (\<lambda>(s, live, w).
    card (insert (id' s) (id' ` snd ` set (items (catalog w))) - live)))"
    by simp
next
  fix s :: SnapshotMeta and live :: "string set" and w :: "'e world"
    and pid x y and p :: SnapshotMeta
  assume notin: "id' s \<notin> live" and "parentId s = Some pid"
    and xy: "(x, y) = catalog_Get pid w" and x: "x = Some p"
  let ?I = "id' ` snd ` set (items (catalog w))"
  from xy x have get: "map_of (items (catalog w)) pid = Some p" and y: "y = record_call (Call_Get pid) w"
    by (simp_all add: catalog_Get_def Get_def)
  from get have "(pid, p) \<in> set (items (catalog w))"
    by (rule map_of_SomeD)
  then have pin: "id' p \<in> ?I"
    by force
  have fin: "finite (insert (id' s) ?I - live)"
    by simp
  have "insert (id' p) ?I - insert (id' s) live \<subset> insert (id' s) ?I - live"
    using pin notin by auto
  then have "card (insert (id' p) ?I - insert (id' s) live) < card (insert (id' s) ?I - live)"
    using fin by (rule psubset_card_mono [rotated])
  then show "((p, insert (id' s) live, y), (s, live, w)) \<in> measure (\<lambda>(s, live, w).
    card (insert (id' s) (id' ` snd ` set (items (catalog w))) - live))"
    using y by (simp add: record_call_def)
qed

declare MarkLiveWithParents.simps [simp del]

fun mark_step :: "SnapshotMeta \<Rightarrow> string set \<times> 'e world \<Rightarrow> string set \<times> 'e world" where
  "mark_step s (live, w) = MarkLiveWithParents s live w"

text \<open>
  \<open>std::sort\<close> with \<open>a.created > b.created\<close>: newest first. The order of records
  with equal \<open>created\<close> is unspecified in C++; the model keeps their input order.
\<close>

definition sort_newest_first :: "SnapshotMeta list \<Rightarrow> SnapshotMeta list" where
  "sort_newest_first all = sort_key (\<lambda>s. - created s) all"

fun keep_step :: "TimePoint \<Rightarrow> SnapshotMeta \<Rightarrow> string set \<times> 'e world \<Rightarrow> string set \<times> 'e world" where
  "keep_step cutoff s (live, w) =
     (if state s = Deleted then (live, w)
      else
        (let lw = (if created s \<ge> cutoff then MarkLiveWithParents s live w else (live, w));
             lw = (if leaseCount s > 0 then mark_step s lw else lw)
         in if ''pin'' \<in> tags s \<or> ''retain'' \<in> tags s \<or> ''legal'' \<in> tags s
            then mark_step s lw else lw))"

definition ComputeLiveSet ::
  "'e SnapshotGC \<Rightarrow> SnapshotMeta list \<Rightarrow> 'e world \<Rightarrow> string set \<times> 'e world" where
  "ComputeLiveSet gc all w =
     (case Clock_now w of
        (now, w) \<Rightarrow>
          (let cutoff = now - hours_to_ticks (maxAge (policy gc));
               sorted = sort_newest_first all;
               lw = fold mark_step (take (keepLastN (policy gc)) sorted) ({}, w)
           in fold (keep_step cutoff) all lw))"

fun tombstone_step ::
  "'e SnapshotGC \<Rightarrow> string set \<Rightarrow> TimePoint \<Rightarrow> SnapshotMeta \<Rightarrow> GCMetrics \<times> 'e world
    \<Rightarrow> GCMetrics \<times> 'e world" where
  "tombstone_step gc live now s (metrics, w) =
     (if state s \<noteq> Active then (metrics, w)
      else if id' s \<in> live then (metrics, w)
      else if leaseCount s > 0 then (metrics, w)
      else if dryRun (opts gc) then
        (metrics,
         catalog_RecordEvent
           \<lparr>when' = now, snapshotId = id' s, type' = ''DRYRUN_TOMBSTONE'',
            details = ''Would tombstone''\<rparr> w)
      else
        (case catalog_TransitionState (id' s) Active Tombstoned w of
           (False, w) \<Rightarrow> (metrics, w)
         | (True, w) \<Rightarrow>
             (case catalog_Get (id' s) w of
                (None, w) \<Rightarrow> (metrics, w)
              | (Some cur, w) \<Rightarrow>
                  (let m = cur\<lparr>hardDeleteAfter := Some (now + hours_to_ticks (gracePeriod (opts gc))),
                               nextRetryAfter := None, lastError := []\<rparr>;
                       w = snd (catalog_Upsert m w);
                       w = catalog_RecordEvent
                             \<lparr>when' = now, snapshotId = id' s, type' = ''TOMBSTONE'',
                              details = ''Soft-deleted; hardDeleteAfter set''\<rparr> w
                   in (metrics\<lparr>tombstoned := tombstoned metrics + 1\<rparr>, w)))))"

fun inactive_step ::
  "'e SnapshotGC \<Rightarrow> string set \<Rightarrow> SnapshotMeta \<Rightarrow> GCMetrics \<times> 'e world
    \<Rightarrow> GCMetrics \<times> 'e world" where
  "inactive_step gc live s (metrics, w) =
     (if state s \<noteq> Active then (metrics, w)
      else if id' s \<in> live then (metrics, w)
      else if lastAccess s > 0 then
        (let inactiveAfter = lastAccess s + hours_to_ticks (inactiveTimeout (opts gc))
         in case Clock_now w of
              (t, w) \<Rightarrow>
                if t \<ge> inactiveAfter then
                  (case Clock_now w of
                     (t', w) \<Rightarrow>
                       (metrics\<lparr>inactiveLoadedSignals := inactiveLoadedSignals metrics + 1\<rparr>,
                        catalog_RecordEvent
                          \<lparr>when' = t', snapshotId = id' s, type' = ''INACTIVE_ELIGIBLE'',
                           details = ''Unreferenced long enough to be considered inactive''\<rparr> w))
                else (metrics, w))
      else (metrics, w))"

definition TombstoneCandidates ::
  "'e SnapshotGC \<Rightarrow> SnapshotMeta list \<Rightarrow> string set \<Rightarrow> GCMetrics \<times> 'e world
    \<Rightarrow> GCMetrics \<times> 'e world" where
  "TombstoneCandidates gc all live mw =
     (case mw of
        (metrics, w) \<Rightarrow>
          (case Clock_now w of
             (now, w) \<Rightarrow>
               fold (inactive_step gc live) all
                 (fold (tombstone_step gc live now) all (metrics, w))))"

text \<open>The filter of \<open>HardDeleteEligible\<close>: the records that pass every \<open>continue\<close>.\<close>

definition eligible_at :: "TimePoint \<Rightarrow> SnapshotMeta \<Rightarrow> bool" where
  "eligible_at now s =
     (if state s \<noteq> Tombstoned then False
      else if leaseCount s > 0 then False
      else
        (case hardDeleteAfter s of
           None \<Rightarrow> False
         | Some h \<Rightarrow>
             if now < h then False
             else (case nextRetryAfter s of None \<Rightarrow> True | Some r \<Rightarrow> \<not> now < r)))"

definition backoff_ticks :: "'e SnapshotGC \<Rightarrow> 32 word \<Rightarrow> int" where
  "backoff_ticks gc failures =
     seconds_to_ticks (baseRetryBackoff (opts gc) * 2 ^ min (unat failures) 10)"

definition isFailed_of :: "bool \<Rightarrow> string list \<Rightarrow> string \<Rightarrow> string \<Rightarrow> bool" where
  "isFailed_of ok failed err i =
     (if \<not> ok \<and> failed = [] \<and> err \<noteq> [] then True else i \<in> set failed)"

fun dryrun_delete_step :: "TimePoint \<Rightarrow> string \<Rightarrow> 'e world \<Rightarrow> 'e world" where
  "dryrun_delete_step now i w =
     catalog_RecordEvent
       \<lparr>when' = now, snapshotId = i, type' = ''DRYRUN_DELETE'',
        details = ''Would hard-delete payload''\<rparr> w"

fun deleting_step :: "string \<Rightarrow> string list \<times> 'e world \<Rightarrow> string list \<times> 'e world" where
  "deleting_step i (deletingIds, w) =
     (case catalog_TransitionState i Tombstoned Deleting w of
        (True, w) \<Rightarrow> (deletingIds @ [i], w)
      | (False, w) \<Rightarrow> (deletingIds, w))"

fun finalize_step ::
  "'e SnapshotGC \<Rightarrow> bool \<Rightarrow> string list \<Rightarrow> string \<Rightarrow> string \<Rightarrow> GCMetrics \<times> 'e world
    \<Rightarrow> GCMetrics \<times> 'e world" where
  "finalize_step gc ok failed err i (metrics, w) =
     (case catalog_Get i w of
        (None, w) \<Rightarrow> (metrics, w)
      | (Some cur, w) \<Rightarrow>
          if \<not> isFailed_of ok failed err i then
            (let w = snd (catalog_TransitionState i Deleting Deleted w) in
             case Clock_now w of
               (t, w) \<Rightarrow>
                 (let w = catalog_RecordEvent
                            \<lparr>when' = t, snapshotId = i, type' = ''DELETE_OK'',
                             details = ''Payload permanently deleted''\<rparr> w;
                      metrics = metrics\<lparr>deleted := deleted metrics + 1\<rparr>
                  in case corruption gc of
                       None \<Rightarrow> (metrics, w)
                     | Some forget \<Rightarrow>
                         (metrics,
                          record_call (Call_ForgetCorruptionForSnapshot i)
                            (w\<lparr>env := forget i (env w)\<rparr>))))
          else
            (let metrics = metrics\<lparr>deleteFailed := deleteFailed metrics + 1\<rparr>;
                 m = cur\<lparr>deleteFailures := deleteFailures cur + 1\<rparr>;
                 m = m\<lparr>lastError := (if err = [] then ''Delete failed'' else err)\<rparr>;
                 backoff = backoff_ticks gc (deleteFailures m)
             in case Clock_now w of
                  (t, w) \<Rightarrow>
                    (let m = m\<lparr>nextRetryAfter := Some (t + backoff)\<rparr> in
                     if deleteFailures m \<ge> maxDeleteFailuresBeforeQuarantine (opts gc) then
                       (let w = snd (catalog_TransitionState i Deleting Quarantined w) in
                        case Clock_now w of
                          (t', w) \<Rightarrow>
                            (let w = catalog_RecordEvent
                                       \<lparr>when' = t', snapshotId = i, type' = ''QUARANTINE'',
                                        details = ''Too many delete failures: '' @ lastError m\<rparr> w
                             in (metrics\<lparr>quarantined := quarantined metrics + 1\<rparr>,
                                 snd (catalog_Upsert m w))))
                     else
                       (let w = snd (catalog_TransitionState i Deleting Tombstoned w) in
                        case Clock_now w of
                          (t', w) \<Rightarrow>
                            (let w = catalog_RecordEvent
                                       \<lparr>when' = t', snapshotId = i, type' = ''DELETE_FAIL'',
                                        details = ''Will retry after backoff; err='' @ lastError m\<rparr> w
                             in (metrics, snd (catalog_Upsert m w)))))))"

declare keep_step.simps [simp del] tombstone_step.simps [simp del] inactive_step.simps [simp del]
  dryrun_delete_step.simps [simp del] deleting_step.simps [simp del] finalize_step.simps [simp del]

text \<open>One turn of the outer loop of \<open>HardDeleteEligible\<close>, on the ids of one batch.\<close>

definition process_batch ::
  "'e SnapshotGC \<Rightarrow> TimePoint \<Rightarrow> string list \<Rightarrow> GCMetrics \<times> 'e world \<Rightarrow> GCMetrics \<times> 'e world" where
  "process_batch gc now batchIds mw =
     (case mw of
        (metrics, w) \<Rightarrow>
          if dryRun (opts gc) then (metrics, fold (dryrun_delete_step now) batchIds w)
          else
            (case fold deleting_step batchIds ([], w) of
               (deletingIds, w) \<Rightarrow>
                 if deletingIds = [] then (metrics, w)
                 else
                   (case storage_DeleteSnapshotPayloadBatch gc deletingIds [] [] w of
                      ((ok, failed, err), w) \<Rightarrow>
                        fold (finalize_step gc ok failed err) deletingIds (metrics, w))))"

text \<open>
  The inner loop that fills \<open>batchIds\<close>: the ids at the indices \<open>j\<close> with \<open>i \<le> j\<close>,
  \<open>j < eligible.size()\<close> and \<open>j < i + batchDeleteSize\<close>.
\<close>

definition batchIds_at :: "'e SnapshotGC \<Rightarrow> SnapshotMeta list \<Rightarrow> nat \<Rightarrow> string list" where
  "batchIds_at gc eligible i = map id' (take (batchDeleteSize (opts gc)) (drop i eligible))"

text \<open>
  The outer loop steps \<open>i\<close> by \<open>batchDeleteSize\<close>. With \<open>batchDeleteSize = 0\<close> and a
  non-empty list it never ends, which is the value \<open>None\<close>.
\<close>

partial_function (option) batches ::
  "'e SnapshotGC \<Rightarrow> TimePoint \<Rightarrow> SnapshotMeta list \<Rightarrow> nat \<Rightarrow> GCMetrics \<times> 'e world
    \<Rightarrow> (GCMetrics \<times> 'e world) option" where
  "batches gc now eligible i mw =
     (if i < length eligible then
        batches gc now eligible (i + batchDeleteSize (opts gc))
          (process_batch gc now (batchIds_at gc eligible i) mw)
      else Some mw)"

definition eligible_list :: "'e SnapshotGC \<Rightarrow> TimePoint \<Rightarrow> SnapshotMeta list \<Rightarrow> SnapshotMeta list" where
  "eligible_list gc now all =
     (let eligible = filter (eligible_at now) all
      in if length eligible > maxDeletesPerRun (opts gc)
         then take (maxDeletesPerRun (opts gc)) eligible else eligible)"

definition HardDeleteEligible ::
  "'e SnapshotGC \<Rightarrow> GCMetrics \<times> 'e world \<Rightarrow> (GCMetrics \<times> 'e world) option" where
  "HardDeleteEligible gc mw =
     (case mw of
        (metrics, w) \<Rightarrow>
          (case Clock_now w of
             (now, w) \<Rightarrow>
               (case catalog_ListAll w of
                  (all, w) \<Rightarrow> batches gc now (eligible_list gc now all) 0 (metrics, w))))"

definition RunOnce_leading ::
  "'e SnapshotGC \<Rightarrow> 'e world \<Rightarrow> (GCMetrics \<times> 'e world) option" where
  "RunOnce_leading gc w =
     (case catalog_ListAll w of
        (all, w) \<Rightarrow>
          (let metrics = GCMetrics0\<lparr>scanned := length all\<rparr> in
           case ComputeLiveSet gc all w of
             (live, w) \<Rightarrow>
               (let mw = (if enableTombstoneStage (opts gc)
                          then TombstoneCandidates gc all live (metrics, w) else (metrics, w))
                in case (if enableHardDeleteStage (opts gc)
                         then HardDeleteEligible gc mw else Some mw) of
                     None \<Rightarrow> None
                   | Some (metrics, w) \<Rightarrow>
                       (case leader gc of
                          None \<Rightarrow> Some (metrics, w)
                        | Some l \<Rightarrow>
                            Some (metrics, record_call Call_Release (w\<lparr>env := Release l (env w)\<rparr>))))))"

text \<open>\<open>RunOnce\<close>: the leadership test, then the pass (\<open>RunOnce_leading\<close>).\<close>

definition RunOnce :: "'e SnapshotGC \<Rightarrow> 'e world \<Rightarrow> (GCMetrics \<times> 'e world) option" where
  "RunOnce gc w =
     (case leader gc of
        None \<Rightarrow> RunOnce_leading gc w
      | Some l \<Rightarrow>
          (case TryAcquire l (env w) of
             (acquired, e) \<Rightarrow>
               (let w = record_call (Call_TryAcquire acquired) (w\<lparr>env := e\<rparr>)
                in if \<not> acquired then Some (GCMetrics0, w) else RunOnce_leading gc w)))"

section \<open>Functions of the specification and example inputs\<close>

text \<open>
  The ids on which the single delete returns false while a batch runs, in order:
  what the specification calls the failed ids of a batch.
\<close>

fun failures_of :: "'e single_delete \<Rightarrow> string list \<Rightarrow> 'e \<Rightarrow> string list" where
  "failures_of del [] ev = []"
| "failures_of del (i # ids) ev =
     (case del i [] ev of
        ((ok, e), ev') \<Rightarrow> (if ok then [] else [i]) @ failures_of del ids ev')"

text \<open>A configuration with a leader elector that never grants leadership and a store
  that fails every delete, and an empty world.\<close>

definition never_leader :: "nat ILeaderElector" where
  "never_leader = \<lparr>TryAcquire = (\<lambda>e. (False, e)), Release = (\<lambda>e. e)\<rparr>"

definition ex_policy :: RetentionPolicy where
  "ex_policy = \<lparr>keepLastN = 1, maxAge = 0, enableCheckpointing = False, checkpointInterval = 0\<rparr>"

definition ex_opts :: GCOptions where
  "ex_opts = \<lparr>dryRun = False, enableTombstoneStage = True, enableHardDeleteStage = True,
     inactiveTimeout = 1, gracePeriod = 1, maxDeletesPerRun = 10, batchDeleteSize = 2,
     maxDeleteFailuresBeforeQuarantine = 3, baseRetryBackoff = 10\<rparr>"

definition failing_store :: "nat batch_delete" where
  "failing_store ids failed err e = ((False, failed @ ids, []), e)"

definition gc_not_leader :: "nat SnapshotGC" where
  "gc_not_leader = \<lparr>policy = ex_policy, opts = ex_opts, storage = failing_store,
     leader = Some never_leader, corruption = None\<rparr>"

definition empty_world :: "nat world" where
  "empty_world = \<lparr>catalog = \<lparr>items = [], journal = []\<rparr>, env = 0, clock = (\<lambda>n. int n), reads = 0,
     calls = []\<rparr>"

text \<open>
  The records that the journal format carries without loss. A time point is in the
  range of the clock's 64-bit tick count; it is written in whole milliseconds, and
  an optional time point that is present must not be negative, since a negative
  number reads as absent. The id and the error text must not contain the field
  separator.
\<close>

definition time_in_range :: "TimePoint \<Rightarrow> bool" where
  "time_in_range t = (- (2 ^ 63) \<le> t \<and> t < 2 ^ 63)"

definition time_ok :: "TimePoint \<Rightarrow> bool" where
  "time_ok t = (time_in_range t \<and> ticks_per_ms dvd t)"

definition opt_time_ok :: "TimePoint option \<Rightarrow> bool" where
  "opt_time_ok ot = (case ot of None \<Rightarrow> True | Some t \<Rightarrow> 0 \<le> t \<and> time_ok t)"

definition pipe_free :: "string \<Rightarrow> bool" where
  "pipe_free s = (c_pipe \<notin> set s)"

definition serializable :: "SnapshotMeta \<Rightarrow> bool" where
  "serializable m =
     (pipe_free (id' m) \<and> pipe_free (lastError m) \<and> time_ok (created m) \<and> time_ok (lastAccess m)
      \<and> opt_time_ok (hardDeleteAfter m) \<and> opt_time_ok (nextRetryAfter m))"

definition opt_ms :: "TimePoint option \<Rightarrow> int" where
  "opt_ms ot = (case ot of Some t \<Rightarrow> toMs t | None \<Rightarrow> - 1)"

definition rec_a :: SnapshotMeta where
  "rec_a = \<lparr>id' = ''a'', created = 5000000, sizeBytes = 42, state = Tombstoned, parentId = None,
     tags = {}, leaseCount = 0, lastAccess = 0, hardDeleteAfter = Some 7000000, deleteFailures = 2,
     nextRetryAfter = None, lastError = [CHR ''x'', c_nl, c_bs, c_cr, CHR ''n'']\<rparr>"

text \<open>
  What the journal keeps of a record: everything but \<open>parentId\<close> and \<open>tags\<close>. The
  mutating operations of the catalog as a datatype, a sequence of them applied in
  order, and the operations whose journal lines read back as written: an upserted
  record is serializable and its id has no newline, the id of a transition is one
  white-space-free token, the id and the type of an event have no newline.
  A catalog is consistent with its journal when the journal is empty or ends with
  a newline and replays to the catalog's map, as the journal sees it.
\<close>

definition journal_view :: "SnapshotMeta \<Rightarrow> SnapshotMeta" where
  "journal_view m = m\<lparr>parentId := None, tags := {}\<rparr>"

definition journal_views :: "items \<Rightarrow> items" where
  "journal_views its = map (\<lambda>(k, m). (k, journal_view m)) its"

datatype catalog_op =
    Op_Upsert SnapshotMeta
  | Op_TransitionState string SnapshotState SnapshotState
  | Op_RecordEvent GCEvent

fun apply_op :: "catalog_op \<Rightarrow> JournalCatalog \<Rightarrow> JournalCatalog" where
  "apply_op (Op_Upsert m) c = snd (Upsert c m)"
| "apply_op (Op_TransitionState i expected desired) c = snd (TransitionState c i expected desired)"
| "apply_op (Op_RecordEvent e) c = RecordEvent c e"

definition apply_ops :: "catalog_op list \<Rightarrow> JournalCatalog \<Rightarrow> JournalCatalog" where
  "apply_ops ops c = fold apply_op ops c"

definition nl_free :: "string \<Rightarrow> bool" where
  "nl_free s = (c_nl \<notin> set s)"

definition token_id :: "string \<Rightarrow> bool" where
  "token_id i = (i \<noteq> [] \<and> list_all (\<lambda>c. \<not> isspace c) i)"

fun op_ok :: "catalog_op \<Rightarrow> bool" where
  "op_ok (Op_Upsert m) = (serializable m \<and> nl_free (id' m))"
| "op_ok (Op_TransitionState i expected desired) = token_id i"
| "op_ok (Op_RecordEvent e) = (nl_free (snapshotId e) \<and> nl_free (type' e))"

definition terminated :: "string \<Rightarrow> bool" where
  "terminated file = (file = [] \<or> last file = c_nl)"

definition journal_consistent :: "JournalCatalog \<Rightarrow> bool" where
  "journal_consistent c =
     (terminated (journal c) \<and> Replay (journal c) = Inr (journal_views (items c)))"

definition fresh_catalog :: JournalCatalog where
  "fresh_catalog = \<lparr>items = [], journal = []\<rparr>"

definition ev_a :: GCEvent where
  "ev_a = \<lparr>when' = 0, snapshotId = ''a'', type' = ''NOTE'', details = [CHR ''x'', c_nl, CHR ''y'']\<rparr>"

text \<open>An event whose type holds a newline followed by the text of an \<open>UPSERT\<close> line.\<close>

definition ev_inject :: GCEvent where
  "ev_inject = \<lparr>when' = 0, snapshotId = ''a'',
     type' = ''X'' @ [c_nl] @ ''UPSERT q|0|0|0|0|0|-1|0|-1|'', details = []\<rparr>"

definition ops_a :: "catalog_op list" where
  "ops_a = [Op_Upsert rec_a, Op_TransitionState ''a'' Tombstoned Deleting, Op_RecordEvent ev_a,
     Op_TransitionState ''b'' Active Tombstoned]"



definition new_calls :: "'e world \<Rightarrow> 'e world \<Rightarrow> call list" where
  "new_calls w w' = drop (length (calls w)) (calls w')"



fun attempt_ids :: "call \<Rightarrow> string list" where
  "attempt_ids (Call_TransitionState i expected desired ok) =
     (if expected = Tombstoned \<and> desired = Deleting then [i] else [])"
| "attempt_ids (Call_RecordEvent e) = (if type' e = ''DRYRUN_DELETE'' then [snapshotId e] else [])"
| "attempt_ids _ = []"

fun payload_ids :: "call \<Rightarrow> string list" where
  "payload_ids (Call_DeleteSnapshotPayloadBatch ids) = ids"
| "payload_ids _ = []"

definition attempted :: "call list \<Rightarrow> string list" where
  "attempted tr = concat (map attempt_ids tr)"

definition payloads :: "call list \<Rightarrow> string list" where
  "payloads tr = concat (map payload_ids tr)"

definition grace_elapsed :: "TimePoint \<Rightarrow> SnapshotMeta \<Rightarrow> bool" where
  "grace_elapsed now s =
     (state s = Tombstoned \<and> leaseCount s = 0
      \<and> (case hardDeleteAfter s of None \<Rightarrow> False | Some h \<Rightarrow> h \<le> now)
      \<and> (case nextRetryAfter s of None \<Rightarrow> True | Some r \<Rightarrow> r \<le> now))"

text \<open>Relations between the worlds before and after a step, used in the proofs.\<close>

definition quiet_rel :: "'e world \<Rightarrow> 'e world \<Rightarrow> string list \<Rightarrow> bool" where
  "quiet_rel w w' A = (\<exists>tr. calls w' = calls w @ tr \<and> attempted tr = A \<and> payloads tr = [])"

definition trace_rel :: "'e world \<Rightarrow> 'e world \<Rightarrow> string list \<Rightarrow> bool" where
  "trace_rel w w' A =
     (\<exists>tr. calls w' = calls w @ tr \<and> attempted tr = A \<and> set (payloads tr) \<subseteq> set A
        \<and> length (payloads tr) \<le> length A)"

text \<open>
  Example inputs for the engine: a store that fails every delete, no elector, and
  worlds whose catalog holds a record \<open>x\<close> that is Tombstoned with its grace elapsed.
\<close>

definition rec_x :: SnapshotMeta where
  "rec_x = \<lparr>id' = ''x'', created = 0, sizeBytes = 1, state = Tombstoned, parentId = None,
     tags = {}, leaseCount = 0, lastAccess = 0, hardDeleteAfter = Some 0, deleteFailures = 0,
     nextRetryAfter = None, lastError = []\<rparr>"

definition rec_y :: SnapshotMeta where
  "rec_y = \<lparr>id' = ''y'', created = 0, sizeBytes = 1, state = Active, parentId = None,
     tags = {}, leaseCount = 0, lastAccess = 1, hardDeleteAfter = None, deleteFailures = 0,
     nextRetryAfter = None, lastError = []\<rparr>"

definition gc_failing :: "nat SnapshotGC" where
  "gc_failing = \<lparr>policy = ex_policy, opts = ex_opts, storage = failing_store,
     leader = None, corruption = None\<rparr>"

definition gc_dry :: "nat SnapshotGC" where
  "gc_dry = gc_failing\<lparr>opts := ex_opts\<lparr>dryRun := True, inactiveTimeout := 0\<rparr>\<rparr>"

definition world_of :: "items \<Rightarrow> nat world" where
  "world_of its = \<lparr>catalog = \<lparr>items = its, journal = []\<rparr>, env = 0,
     clock = (\<lambda>n. 1000 + int n), reads = 0, calls = []\<rparr>"

definition world_x :: "nat world" where
  "world_x = world_of [(''x'', rec_x)]"

definition world_x2 :: "nat world" where
  "world_x2 = world_of [(''x'', rec_x\<lparr>deleteFailures := 2\<rparr>)]"

definition world_xy :: "nat world" where
  "world_xy = world_of [(''x'', rec_x), (''y'', rec_y)]"

definition world_xd :: "nat world" where
  "world_xd = world_of [(''x'', rec_x\<lparr>state := Deleting\<rparr>)]"

text \<open>
  A listing whose newest record \<open>d\<close> is Deleted and has the parent \<open>p\<close>; \<open>a\<close> is the
  newest record that is not Deleted. The policy keeps the last one and no record is
  young enough for \<open>maxAge\<close>.
\<close>

definition rec_d :: SnapshotMeta where
  "rec_d = rec_y\<lparr>id' := ''d'', created := 3, state := Deleted, parentId := Some ''p'', lastAccess := 0\<rparr>"

definition rec_a2 :: SnapshotMeta where
  "rec_a2 = rec_y\<lparr>id' := ''a'', created := 2, lastAccess := 0\<rparr>"

definition rec_p :: SnapshotMeta where
  "rec_p = rec_y\<lparr>id' := ''p'', created := 1, lastAccess := 0\<rparr>"

definition world_dap :: "nat world" where
  "world_dap = world_of [(''d'', rec_d), (''a'', rec_a2), (''p'', rec_p)]"

definition gc_keep1 :: "nat SnapshotGC" where
  "gc_keep1 = gc_failing\<lparr>opts := ex_opts\<lparr>enableHardDeleteStage := False\<rparr>\<rparr>"

text \<open>What a pass leaves of a record, and the types of the events among some calls.\<close>

definition summary :: "'e world \<Rightarrow> (string \<times> SnapshotState \<times> 32 word \<times> TimePoint option \<times> string) list" where
  "summary w =
     map (\<lambda>m. (id' m, state m, deleteFailures m, nextRetryAfter m, lastError m))
       (ListAll (catalog w))"

fun event_type :: "call \<Rightarrow> string list" where
  "event_type (Call_RecordEvent e) = [type' e]"
| "event_type _ = []"

definition event_types :: "call list \<Rightarrow> string list" where
  "event_types tr = concat (map event_type tr)"

text \<open>
  The ids a call names: every call the collector makes on the catalog, the payload
  store or the corruption tracker about a snapshot.
\<close>

fun call_ids :: "call \<Rightarrow> string list" where
  "call_ids (Call_Get i) = [i]"
| "call_ids (Call_TransitionState i expected desired ok) = [i]"
| "call_ids (Call_Upsert m) = [id' m]"
| "call_ids (Call_RecordEvent e) = [snapshotId e]"
| "call_ids (Call_DeleteSnapshotPayloadBatch ids) = ids"
| "call_ids (Call_ForgetCorruptionForSnapshot i) = [i]"
| "call_ids _ = []"

text \<open>The failing collector with a batch size of 0.\<close>

definition gc_batch0 :: "nat SnapshotGC" where
  "gc_batch0 = gc_failing\<lparr>opts := ex_opts\<lparr>batchDeleteSize := 0\<rparr>\<rparr>"

definition touched :: "call list \<Rightarrow> string list" where
  "touched tr = concat (map call_ids tr)"

text \<open>
  What \<open>items_\<close> is in the source, a map filled only by \<open>items_[m.id] = m\<close>: the keys are
  distinct and every record is stored under its own id.
\<close>

definition keyed :: "items \<Rightarrow> bool" where
  "keyed its = (distinct (map fst its) \<and> list_all (\<lambda>(k, m). id' m = k) its)"

text \<open>
  From \<open>w\<close> to \<open>w'\<close> every call names only ids of \<open>S\<close> and the records of the other ids
  are as they were.
\<close>

definition within :: "string set \<Rightarrow> 'e world \<Rightarrow> 'e world \<Rightarrow> bool" where
  "within S w w' =
     ((\<exists>tr. calls w' = calls w @ tr \<and> set (touched tr) \<subseteq> S)
      \<and> (\<forall>k. k \<notin> S \<longrightarrow> map_of (items (catalog w')) k = map_of (items (catalog w)) k)
      \<and> keyed (items (catalog w')))"









section \<open>Lemmas\<close>

lemma batch_loop_failures:
  "fst (batch_loop del ids (allOk, failed, ev)) = (allOk \<and> failures_of del ids ev = [])
   \<and> fst (snd (batch_loop del ids (allOk, failed, ev))) = failed @ failures_of del ids ev"
  by (induction ids arbitrary: allOk failed ev) (auto split: prod.splits)

lemma FilesystemStorage_loop_eq:
  "FilesystemStorage_loop fs ids acc = batch_loop (FilesystemStorage_DeleteSnapshotPayload fs) ids acc"
  by (induction ids arbitrary: acc) (auto split: prod.splits)

subsection \<open>Numbers as text\<close>

lemma of_char_digit_char: "d < 10 \<Longrightarrow> (of_char (digit_char d) :: nat) = 48 + d"
  by (simp add: digit_char_def)

lemma isdigit_digit_char: "d < 10 \<Longrightarrow> isdigit (digit_char d)"
  by (simp add: isdigit_def of_char_digit_char)

lemma digit_val_digit_char: "d < 10 \<Longrightarrow> digit_val (digit_char d) = d"
  by (simp add: digit_val_def of_char_digit_char)

lemma isdigit_simps:
  "\<not> isdigit c_pipe" "\<not> isdigit c_minus" "\<not> isdigit c_plus" "\<not> isdigit c_sp" "\<not> isdigit c_nl"
  by (simp_all add: isdigit_def c_pipe_def c_minus_def c_plus_def c_sp_def c_nl_def)

lemma isdigit_not_space: "isdigit c \<Longrightarrow> \<not> isspace c"
  by (auto simp: isdigit_def isspace_def)

lemma to_string_nat_digits: "c \<in> set (to_string_nat n) \<Longrightarrow> isdigit c"
proof (induction n rule: to_string_nat.induct)
  case (1 n)
  then show ?case
    by (subst (asm) (2) to_string_nat.simps) (auto simp: isdigit_digit_char split: if_splits)
qed

lemma to_string_nat_nonempty: "to_string_nat n \<noteq> []"
  by (subst to_string_nat.simps) simp

lemma digits_value_append:
  "\<forall>c \<in> set xs. isdigit c \<Longrightarrow> digits_value acc (xs @ ys) = digits_value (digits_value acc xs) ys"
  by (induction xs arbitrary: acc) auto

lemma digits_value_to_string_nat:
  "digits_value acc (to_string_nat n) = acc * 10 ^ length (to_string_nat n) + n"
proof (induction n arbitrary: acc rule: to_string_nat.induct)
  case (1 n)
  show ?case
  proof (cases "n < 10")
    case True
    then show ?thesis
      by (subst (1 2) to_string_nat.simps) (simp add: isdigit_digit_char digit_val_digit_char)
  next
    case False
    have ds: "\<forall>c \<in> set (to_string_nat (n div 10)). isdigit c"
      using to_string_nat_digits by blast
    have "digits_value acc (to_string_nat n)
        = digits_value (digits_value acc (to_string_nat (n div 10))) [digit_char (n mod 10)]"
      using False by (subst to_string_nat.simps) (simp add: digits_value_append [OF ds])
    also have "\<dots> = (acc * 10 ^ length (to_string_nat (n div 10)) + n div 10) * 10 + n mod 10"
      using False by (simp add: "1.IH" isdigit_digit_char digit_val_digit_char)
    also have "\<dots> = acc * 10 ^ length (to_string_nat n) + n"
      using False by (subst (2) to_string_nat.simps) (simp add: algebra_simps)
    finally show ?thesis .
  qed
qed

lemma strto_to_string_nat: "strto (to_string_nat n) = Some (False, n)"
proof -
  obtain c cs where cs: "to_string_nat n = c # cs"
    using to_string_nat_nonempty by (cases "to_string_nat n") auto
  then have d: "isdigit c"
    using to_string_nat_digits [of c n] by simp
  have "digits_value 0 (to_string_nat n) = n"
    by (simp add: digits_value_to_string_nat)
  then show ?thesis
    using d cs isdigit_not_space [OF d] isdigit_simps
    by (auto simp: strto_def Let_def)
qed

lemma strto_to_string: "strto (to_string i) = Some (i < 0, nat \<bar>i\<bar>)"
proof (cases "i < 0")
  case False
  then show ?thesis by (simp add: to_string_def strto_to_string_nat)
next
  case True
  obtain c cs where cs: "to_string_nat (nat (- i)) = c # cs"
    using to_string_nat_nonempty by (cases "to_string_nat (nat (- i))") auto
  then have d: "isdigit c"
    using to_string_nat_digits [of c "nat (- i)"] by simp
  have "digits_value 0 (to_string_nat (nat (- i))) = nat (- i)"
    by (simp add: digits_value_to_string_nat)
  then show ?thesis
    using True d cs by (simp add: to_string_def strto_def Let_def isspace_def c_minus_def)
qed

lemma stoll_to_string: "- (2 ^ 63) \<le> i \<Longrightarrow> i < 2 ^ 63 \<Longrightarrow> stoll (to_string i) = Inr i"
  by (simp add: stoll_def strto_to_string Let_def)

lemma stoi_to_string: "- (2 ^ 31) \<le> i \<Longrightarrow> i < 2 ^ 31 \<Longrightarrow> stoi (to_string i) = Inr i"
  by (simp add: stoi_def strto_to_string Let_def)

lemma stoull_to_string_nat: "stoull (to_string_nat (unat (w :: 64 word))) = Inr w"
proof -
  have "unat w < 2 ^ 64"
    using unsigned_less [of w] by simp
  then show ?thesis
    by (simp add: stoull_def strto_to_string_nat)
qed

lemma ucast_32_64_32: "(ucast (ucast (w :: 32 word) :: 64 word) :: 32 word) = w"
  by (simp add: ucast_up_ucast_id is_up)

lemma stoul_to_string_nat: "stoul (to_string_nat (unat (w :: 32 word))) = Inr (ucast w)"
proof -
  have "unat w < 2 ^ 32"
    using unsigned_less [of w] by simp
  then have lt: "unat w < (2 :: nat) ^ 64"
    by (rule less_trans) simp
  then show ?thesis
    by (simp add: stoul_def stoull_def strto_to_string_nat)
qed

lemma Unescape_plain: "c \<noteq> c_bs \<Longrightarrow> Unescape (c # xs) = c # Unescape xs"
  by (cases xs) simp_all

lemma Unescape_Escape: "Unescape (Escape s) = s"
  by (induction s) (auto simp: Unescape_plain, auto simp: c_nl_def c_cr_def c_bs_def)

lemma split_parts_field:
  "c_pipe \<notin> set a \<Longrightarrow> split_parts cur (a @ c_pipe # rest) = (cur @ a) # split_parts [] rest"
  by (induction a arbitrary: cur) auto

lemma split_parts_last: "c_pipe \<notin> set a \<Longrightarrow> split_parts cur a = [cur @ a]"
  by (induction a arbitrary: cur) auto

lemma to_string_nat_no_pipe: "c_pipe \<notin> set (to_string_nat n)"
  using to_string_nat_digits [of c_pipe n] isdigit_simps by blast

lemma to_string_no_pipe: "c_pipe \<notin> set (to_string i)"
  using to_string_nat_no_pipe by (auto simp: to_string_def c_pipe_def c_minus_def)

lemma Escape_no_pipe: "c_pipe \<notin> set s \<Longrightarrow> c_pipe \<notin> set (Escape s)"
  by (induction s) (auto simp: c_pipe_def c_bs_def)

lemma toMs_bounds:
  "0 \<le> t \<Longrightarrow> 0 \<le> toMs t \<and> toMs t \<le> t"
  "t < 0 \<Longrightarrow> t \<le> toMs t \<and> toMs t \<le> 0"
proof -
  have k: "0 \<le> x \<Longrightarrow> 0 \<le> x div ticks_per_ms \<and> x div ticks_per_ms \<le> x" for x :: int
    using div_by_1 [of x] zdiv_mono2 [of x 1 ticks_per_ms]
    by (simp add: ticks_per_ms_def pos_imp_zdiv_nonneg_iff)
  show "0 \<le> t \<Longrightarrow> 0 \<le> toMs t \<and> toMs t \<le> t"
    using k [of t] by (cases "t = 0") (simp_all add: toMs_def sgn_if)
  show "t < 0 \<Longrightarrow> t \<le> toMs t \<and> toMs t \<le> 0"
    using k [of "- t"] by (simp add: toMs_def sgn_if)
qed

lemma toMs_in_range:
  assumes "time_in_range t"
  shows "- (2 ^ 63) \<le> toMs t" and "toMs t < 2 ^ 63"
  using toMs_bounds [of t] assms by (cases "0 \<le> t"; simp add: time_in_range_def)+

lemma fromMs_toMs: "ticks_per_ms dvd t \<Longrightarrow> fromMs (toMs t) = t"
  by (auto simp: fromMs_def toMs_def sgn_if)

lemma split_parts_Serialize:
  assumes "pipe_free (id' m)" and "pipe_free (lastError m)"
  shows "split_parts [] (Serialize m) =
    [id' m, to_string (toMs (created m)), to_string_nat (unat (sizeBytes m)),
     to_string (int_of_state (state m)), to_string_nat (unat (leaseCount m)),
     to_string (toMs (lastAccess m)), to_string (opt_ms (hardDeleteAfter m)),
     to_string_nat (unat (deleteFailures m)), to_string (opt_ms (nextRetryAfter m)),
     Escape (lastError m)]"
  using assms
  by (simp add: Serialize_def Let_def opt_ms_def pipe_free_def split_parts_field split_parts_last
      to_string_no_pipe to_string_nat_no_pipe Escape_no_pipe)

lemma ebind_Inr: "ebind (Inr x) f = f x"
  by (simp add: ebind_def)

lemma stoll_time: "time_ok t \<Longrightarrow> stoll (to_string (toMs t)) = Inr (toMs t)"
  using toMs_in_range [of t] by (simp add: time_ok_def stoll_to_string)

lemma stoll_opt_ms: "opt_time_ok ot \<Longrightarrow> stoll (to_string (opt_ms ot)) = Inr (opt_ms ot)"
  by (cases ot) (simp_all add: opt_time_ok_def opt_ms_def stoll_time stoll_to_string)

lemma opt_ms_None: "\<not> 0 \<le> opt_ms None"
  by (simp add: opt_ms_def)

lemma opt_ms_Some: "opt_time_ok (Some t) \<Longrightarrow> 0 \<le> opt_ms (Some t) \<and> fromMs (opt_ms (Some t)) = t"
  using toMs_bounds(1) [of t] by (simp add: opt_time_ok_def opt_ms_def time_ok_def fromMs_toMs)

lemma stoi_state: "stoi (to_string (int_of_state s)) = Inr (int_of_state s)"
  by (cases s) (simp_all add: int_of_state_def stoi_to_string)

lemma state_of_int_of_state: "state_of_int (int_of_state s) = Inr s"
  by (cases s) (simp_all add: int_of_state_def state_of_int_def)

lemma Deserialize_fields:
  assumes p: "pipe_free i" "pipe_free e"
    and t: "time_ok c" "time_ok la"
    and o: "opt_time_ok hda" "opt_time_ok nr"
  shows "Deserialize (Serialize \<lparr>id' = i, created = c, sizeBytes = sz, state = st, parentId = p,
      tags = tg, leaseCount = lc, lastAccess = la, hardDeleteAfter = hda, deleteFailures = df,
      nextRetryAfter = nr, lastError = e\<rparr>)
    = Inr \<lparr>id' = i, created = c, sizeBytes = sz, state = st, parentId = None,
      tags = {}, leaseCount = lc, lastAccess = la, hardDeleteAfter = hda, deleteFailures = df,
      nextRetryAfter = nr, lastError = e\<rparr>"
proof -
  have c: "fromMs (toMs c) = c" "fromMs (toMs la) = la"
    using t by (simp_all add: time_ok_def fromMs_toMs)
  note nums = stoll_time [OF t(1)] stoll_time [OF t(2)] stoll_opt_ms
    stoi_state state_of_int_of_state stoul_to_string_nat stoull_to_string_nat ucast_32_64_32 c
    Unescape_Escape opt_ms_None opt_ms_Some
  show ?thesis
    unfolding Deserialize_def
    using o
    by (subst split_parts_Serialize; cases hda; cases nr)
      (simp_all add: p Let_def at_def ebind_Inr nums SnapshotMeta0_def)
qed

subsection \<open>Replay of the journal\<close>

lemma getlines_line:
  "c_nl \<notin> set r \<Longrightarrow> getlines cur (r @ c_nl # rest) = (cur @ r) # getlines [] rest"
  by (induction r arbitrary: cur) auto

lemma getlines_append:
  "getlines cur (f @ c_nl # g) = getlines cur (f @ [c_nl]) @ getlines [] g"
  by (induction f arbitrary: cur) auto

lemma getlines_Append:
  assumes "terminated f" and "nl_free r"
  shows "getlines [] (Append f r) = getlines [] f @ [r]" and "terminated (Append f r)"
proof -
  show "terminated (Append f r)"
    by (simp add: terminated_def Append_def)
  have one: "getlines [] (r @ [c_nl]) = [r]"
    using getlines_line [of r "[]" "[]"] assms(2) by (simp add: nl_free_def)
  show "getlines [] (Append f r) = getlines [] f @ [r]"
  proof (cases "f = []")
    case True
    then show ?thesis by (simp add: Append_def one)
  next
    case False
    with assms(1) obtain f' where f: "f = f' @ [c_nl]"
      by (metis terminated_def append_butlast_last_id)
    show ?thesis
      using getlines_append [of "[]" f' "r @ [c_nl]"] by (simp add: f Append_def one)
  qed
qed

lemma replay_lines_snoc:
  "replay_lines (ls @ [l]) its = ebind (replay_lines ls its) (replay_line l)"
  by (induction ls arbitrary: its) (auto simp: ebind_def split: sum.splits)

lemma isspace_simps: "isspace c_sp" "\<not> isspace CHR ''S''" "\<not> isspace CHR ''T''" "\<not> isspace CHR ''A''"
  "\<not> isspace CHR ''E''"
  by (simp_all add: isspace_def c_sp_def)

lemma extract_word_token:
  assumes "token_id i"
  shows "extract_word (CHR 0x20 # i @ CHR 0x20 # rest) = Some (i, CHR 0x20 # rest)"
proof -
  from assms obtain c cs where i: "i = c # cs" and c: "\<not> isspace c"
    by (cases i) (auto simp: token_id_def)
  have all: "\<forall>x \<in> set i. \<not> isspace x"
    using assms by (simp add: token_id_def list_all_iff)
  have sp: "isspace (CHR 0x20)"
    by (simp add: isspace_def)
  have d: "dropWhile isspace (CHR 0x20 # i @ CHR 0x20 # rest) = i @ CHR 0x20 # rest"
    using c sp by (simp add: i)
  have t: "takeWhile (\<lambda>c. \<not> isspace c) (i @ CHR 0x20 # rest) = i"
    using all sp by (simp add: takeWhile_tail)
  have r: "dropWhile (\<lambda>c. \<not> isspace c) (i @ CHR 0x20 # rest) = CHR 0x20 # rest"
    using all sp by (simp add: dropWhile_append3)
  show ?thesis
    unfolding extract_word_def d Let_def t r using c by (simp add: i)
qed

lemma to_string_state:
  "to_string (int_of_state s) = [digit_char (nat (int_of_state s))]" "nat (int_of_state s) < 10"
  by (cases s; simp add: int_of_state_def to_string_def to_string_nat.simps)+

lemma extract_int_digit:
  assumes "d < 10" and "rest = [] \<or> \<not> isdigit (hd rest)"
  shows "extract_int (CHR 0x20 # digit_char d # rest) = (Some (int d), True, rest)"
proof -
  have sp: "isspace (CHR 0x20)" "\<not> isspace (digit_char d)"
    using assms(1) isdigit_not_space isdigit_digit_char by (simp_all add: isspace_def)
  have nm: "digit_char d \<noteq> c_minus" "digit_char d \<noteq> c_plus"
    using isdigit_digit_char [OF assms(1)] isdigit_simps by auto
  have tk: "takeWhile isdigit (digit_char d # rest) = [digit_char d]"
    "dropWhile isdigit (digit_char d # rest) = rest"
    using assms isdigit_digit_char [of d] by (cases rest; simp)+
  have "int d < 2 ^ 31"
    using assms(1) by simp
  then show ?thesis
    using assms(1) sp nm tk
    by (simp add: extract_int_def Let_def digit_val_digit_char isdigit_digit_char)
qed

lemma parse_STATE_line:
  assumes "token_id i"
  shows "parse_STATE (STATE_line i expected desired) = (i, Some (int_of_state desired))"
proof -
  have w1: "extract_word (STATE_line i expected desired)
      = Some (''STATE'', CHR 0x20 # i @ CHR 0x20 # digit_char (nat (int_of_state expected))
          # CHR 0x20 # [digit_char (nat (int_of_state desired))])"
    by (simp add: STATE_line_def extract_word_def isspace_def to_string_state)
  have e1: "extract_int (CHR 0x20 # digit_char (nat (int_of_state expected))
          # CHR 0x20 # [digit_char (nat (int_of_state desired))])
      = (Some (int_of_state expected), True, CHR 0x20 # [digit_char (nat (int_of_state desired))])"
    using extract_int_digit [of "nat (int_of_state expected)"
        "CHR 0x20 # [digit_char (nat (int_of_state desired))]"] to_string_state(2) [of expected]
    by (cases expected) (simp_all add: isdigit_def int_of_state_def)
  have e2: "extract_int (CHR 0x20 # [digit_char (nat (int_of_state desired))])
      = (Some (int_of_state desired), True, [])"
    using extract_int_digit [of "nat (int_of_state desired)" "[]"] to_string_state(2) [of desired]
    by (cases desired) (simp_all add: int_of_state_def)
  show ?thesis
    unfolding parse_STATE_def w1 by (simp add: extract_word_token [OF assms] e1 e2)
qed

lemma map_of_journal_views:
  "map_of (journal_views its) i = map_option journal_view (map_of its i)"
  by (induction its) (auto simp: journal_views_def)

lemma update_journal_views:
  "AList.update k (journal_view m) (journal_views its) = journal_views (AList.update k m its)"
  by (induction its) (auto simp: journal_views_def)

lemma map_entry_journal_views:
  "AList.map_entry k (\<lambda>m. m\<lparr>state := st\<rparr>) (journal_views its)
    = journal_views (AList.map_entry k (\<lambda>m. m\<lparr>state := st\<rparr>) its)"
  by (induction its) (auto simp: journal_views_def journal_view_def)

lemma Deserialize_Serialize_view:
  "serializable m \<Longrightarrow> Deserialize (Serialize m) = Inr (journal_view m)"
  by (cases m) (simp add: serializable_def Deserialize_fields journal_view_def)

lemma replay_line_UPSERT:
  assumes "serializable m"
  shows "replay_line (UPSERT_line m) (journal_views its)
    = Inr (journal_views (AList.update (id' m) m its))"
  using assms
  by (simp add: replay_line_def starts_with_def UPSERT_line_def Deserialize_Serialize_view ebind_Inr
      update_journal_views [symmetric], simp add: journal_view_def)

lemma replay_line_STATE:
  assumes "token_id i"
  shows "replay_line (STATE_line i expected desired) (journal_views its)
    = Inr (journal_views (case map_of its i of None \<Rightarrow> its
        | Some _ \<Rightarrow> AList.map_entry i (\<lambda>m. m\<lparr>state := desired\<rparr>) its))"
proof -
  have pre: "\<not> starts_with (STATE_line i expected desired) ''UPSERT ''"
    "starts_with (STATE_line i expected desired) ''STATE ''"
    by (simp_all add: STATE_line_def starts_with_def)
  have "replay_line (STATE_line i expected desired) (journal_views its)
      = (case parse_STATE (STATE_line i expected desired) of
           (i, desired) \<Rightarrow>
             (case map_of (journal_views its) i of
                None \<Rightarrow> Inr (journal_views its)
              | Some _ \<Rightarrow>
                  (case desired of
                     None \<Rightarrow> Inl Indeterminate_value
                   | Some k \<Rightarrow>
                       ebind (state_of_int k)
                         (\<lambda>st. Inr (AList.map_entry i (\<lambda>m. m\<lparr>state := st\<rparr>) (journal_views its))))))"
    by (simp add: replay_line_def pre)
  then show ?thesis
    unfolding parse_STATE_line [OF assms]
    by (simp add: map_of_journal_views state_of_int_of_state ebind_Inr map_entry_journal_views
        split: option.splits)
qed

lemma replay_line_EVENT: "replay_line (EVENT_line e) its = Inr its"
  by (simp add: replay_line_def starts_with_def EVENT_line_def)

lemma nl_free_simps:
  "nl_free []" "nl_free (c # s) = (c \<noteq> c_nl \<and> nl_free s)" "nl_free (a @ b) = (nl_free a \<and> nl_free b)"
  by (auto simp: nl_free_def)

lemma nl_free_to_string_nat: "nl_free (to_string_nat n)"
  using to_string_nat_digits [of c_nl n] isdigit_simps by (auto simp: nl_free_def)

lemma nl_free_to_string: "nl_free (to_string k)"
  by (simp add: to_string_def nl_free_simps nl_free_to_string_nat) (simp add: c_nl_def c_minus_def)

lemma nl_free_Escape: "nl_free (Escape s)"
  by (induction s) (simp_all add: nl_free_simps, simp_all add: c_nl_def c_bs_def c_cr_def)

lemma nl_free_token: "token_id i \<Longrightarrow> nl_free i"
  by (auto simp: token_id_def list_all_iff nl_free_def isspace_def c_nl_def)

lemma Serialize_nl_free: "nl_free (id' m) \<Longrightarrow> nl_free (UPSERT_line m)"
  by (simp add: UPSERT_line_def Serialize_def Let_def nl_free_simps nl_free_to_string
      nl_free_to_string_nat nl_free_Escape) (simp add: c_nl_def c_pipe_def)

lemma STATE_nl_free:
  "token_id i \<Longrightarrow> nl_free (STATE_line i expected desired)"
  by (simp add: STATE_line_def nl_free_simps nl_free_to_string nl_free_token) (simp add: c_nl_def)

lemma EVENT_nl_free:
  "nl_free (snapshotId e) \<Longrightarrow> nl_free (type' e) \<Longrightarrow> nl_free (EVENT_line e)"
  by (simp add: EVENT_line_def nl_free_simps nl_free_Escape) (simp add: c_nl_def)

lemma Replay_Append:
  assumes "terminated f" and "nl_free r"
  shows "Replay (Append f r) = ebind (Replay f) (replay_line r)"
  by (simp add: Replay_def getlines_Append(1) [OF assms] replay_lines_snoc)

lemma apply_op_consistent:
  assumes "journal_consistent c" and "op_ok op"
  shows "journal_consistent (apply_op op c)"
proof -
  from assms(1) have t: "terminated (journal c)"
    and r: "Replay (journal c) = Inr (journal_views (items c))"
    by (simp_all add: journal_consistent_def)
  show ?thesis
  proof (cases op)
    case (Op_Upsert m)
    with assms(2) have ok: "serializable m" "nl_free (id' m)"
      by simp_all
    show ?thesis
      using Replay_Append [OF t Serialize_nl_free [OF ok(2)]]
        getlines_Append(2) [OF t Serialize_nl_free [OF ok(2)]]
      by (simp add: Op_Upsert Upsert_def journal_consistent_def r ebind_Inr
          replay_line_UPSERT [OF ok(1)])
  next
    case (Op_TransitionState i expected desired)
    with assms(2) have ok: "token_id i"
      by simp
    note line = STATE_nl_free [OF ok, of expected desired]
    show ?thesis
    proof (cases "map_of (items c) i")
      case None
      then show ?thesis
        using assms(1) by (simp add: Op_TransitionState TransitionState_def)
    next
      case (Some m)
      show ?thesis
      proof (cases "state m = expected")
        case False
        then show ?thesis
          using assms(1) Some by (simp add: Op_TransitionState TransitionState_def)
      next
        case True
        have "Replay (Append (journal c) (STATE_line i expected desired))
            = Inr (journal_views (AList.map_entry i (\<lambda>m. m\<lparr>state := desired\<rparr>) (items c)))"
          by (simp add: Replay_Append [OF t line] r ebind_Inr replay_line_STATE [OF ok] Some)
        then show ?thesis
          using True Some getlines_Append(2) [OF t line]
          by (simp add: Op_TransitionState TransitionState_def journal_consistent_def)
      qed
    qed
  next
    case (Op_RecordEvent e)
    with assms(2) have ok: "nl_free (snapshotId e)" "nl_free (type' e)"
      by simp_all
    show ?thesis
      using Replay_Append [OF t EVENT_nl_free [OF ok]]
        getlines_Append(2) [OF t EVENT_nl_free [OF ok]]
      by (simp add: Op_RecordEvent RecordEvent_def journal_consistent_def r ebind_Inr
          replay_line_EVENT)
  qed
qed

lemma apply_ops_consistent:
  "journal_consistent c \<Longrightarrow> list_all op_ok ops \<Longrightarrow> journal_consistent (apply_ops ops c)"
  unfolding apply_ops_def
  by (induction ops arbitrary: c) (simp_all add: apply_op_consistent)

lemma fresh_catalog_consistent: "journal_consistent fresh_catalog"
  by (simp add: journal_consistent_def fresh_catalog_def terminated_def Replay_def journal_views_def)

subsection \<open>Evaluation of the serializer on concrete records\<close>

lemma digit_char_simps:
  "digit_char 0 = CHR ''0''" "digit_char 1 = CHR ''1''" "digit_char 2 = CHR ''2''"
  "digit_char 3 = CHR ''3''" "digit_char 4 = CHR ''4''" "digit_char 5 = CHR ''5''"
  "digit_char 6 = CHR ''6''" "digit_char 7 = CHR ''7''" "digit_char 8 = CHR ''8''"
  "digit_char 9 = CHR ''9''" "digit_char (Suc 0) = CHR ''1''"
  by code_simp+

lemmas char_defs = c_pipe_def c_minus_def c_plus_def c_nl_def c_bs_def c_cr_def c_sp_def

lemmas ser_eval = Serialize_def to_string_def to_string_nat.simps digit_char_simps
  toMs_def ticks_per_ms_def int_of_state_def char_defs

lemmas deser_eval = Deserialize_def Let_def at_def ebind_def stoll_def stoull_def stoul_def stoi_def
  strto_def isspace_def isdigit_def digit_val_def fromMs_def state_of_int_def SnapshotMeta0_def
  ticks_per_ms_def char_defs

lemmas replay_eval = Replay_def getlines.simps replay_line_def starts_with_def parse_STATE_def
  extract_word_def extract_int_def ebind_def apply_ops_def Upsert_def TransitionState_def
  RecordEvent_def Append_def UPSERT_line_def STATE_line_def EVENT_line_def fresh_catalog_def

lemma serializable_rec_a: "serializable rec_a"
  by (simp add: serializable_def rec_a_def pipe_free_def time_ok_def opt_time_ok_def
      time_in_range_def ticks_per_ms_def char_defs)

subsection \<open>The loop over the batches\<close>

lemma batches_rule:
  assumes bs: "0 < batchDeleteSize (opts gc)"
    and start: "Q i mw"
    and step: "\<And>j mw. j < length eligible \<Longrightarrow> Q j mw \<Longrightarrow>
      Q (j + batchDeleteSize (opts gc)) (process_batch gc now (batchIds_at gc eligible j) mw)"
  shows "\<exists>r k. batches gc now eligible i mw = Some r \<and> length eligible \<le> k \<and> Q k r"
  using start
proof (induction "length eligible - i" arbitrary: i mw rule: less_induct)
  case less
  show ?case
  proof (cases "i < length eligible")
    case False
    then have "batches gc now eligible i mw = Some mw"
      by (subst batches.simps) simp
    then show ?thesis
      using less.prems False by (intro exI [of _ mw] exI [of _ i]) simp
  next
    case True
    have "length eligible - (i + batchDeleteSize (opts gc)) < length eligible - i"
      using True bs by simp
    from less.hyps [OF this step [OF True less.prems]]
    show ?thesis
      using True by (subst batches.simps) simp
  qed
qed

subsection \<open>A dry run\<close>
























subsection \<open>What the hard-delete stage touches\<close>

lemma attempted_append: "attempted (tr @ tr') = attempted tr @ attempted tr'"
  by (simp add: attempted_def)

lemma payloads_append: "payloads (tr @ tr') = payloads tr @ payloads tr'"
  by (simp add: payloads_def)

lemma attempted_Cons: "attempted (c # tr) = attempt_ids c @ attempted tr"
  by (simp add: attempted_def)

lemma payloads_Cons: "payloads (c # tr) = payload_ids c @ payloads tr"
  by (simp add: payloads_def)

lemma quiet_rel_refl: "quiet_rel w w []"
  by (simp add: quiet_rel_def attempted_def payloads_def)

lemma quiet_rel_trans:
  assumes "quiet_rel w w' A" and "quiet_rel w' w'' B"
  shows "quiet_rel w w'' (A @ B)"
proof -
  from assms(1) obtain tr where 1: "calls w' = calls w @ tr" "attempted tr = A" "payloads tr = []"
    unfolding quiet_rel_def by blast
  from assms(2) obtain tr' where 2: "calls w'' = calls w' @ tr'" "attempted tr' = B" "payloads tr' = []"
    unfolding quiet_rel_def by blast
  have "calls w'' = calls w @ (tr @ tr')" "attempted (tr @ tr') = A @ B" "payloads (tr @ tr') = []"
    by (simp_all add: attempted_append payloads_append 1 2)
  then show ?thesis
    unfolding quiet_rel_def by blast
qed

lemma quiet_rel_trans0: "quiet_rel w w' [] \<Longrightarrow> quiet_rel w' w'' B \<Longrightarrow> quiet_rel w w'' B"
  using quiet_rel_trans [of w w' "[]" w'' B] by simp

lemma quiet_imp_trace: "quiet_rel w w' A \<Longrightarrow> trace_rel w w' A"
  by (auto simp: quiet_rel_def trace_rel_def)

lemma trace_rel_trans:
  assumes "trace_rel w w' A" and "trace_rel w' w'' B"
  shows "trace_rel w w'' (A @ B)"
proof -
  from assms(1) obtain tr where 1: "calls w' = calls w @ tr" "attempted tr = A"
    "set (payloads tr) \<subseteq> set A" "length (payloads tr) \<le> length A"
    unfolding trace_rel_def by blast
  from assms(2) obtain tr' where 2: "calls w'' = calls w' @ tr'" "attempted tr' = B"
    "set (payloads tr') \<subseteq> set B" "length (payloads tr') \<le> length B"
    unfolding trace_rel_def by blast
  have "calls w'' = calls w @ (tr @ tr')"
    by (simp add: 1 2)
  moreover have "attempted (tr @ tr') = A @ B"
    by (simp add: attempted_append 1 2)
  moreover have "set (payloads (tr @ tr')) \<subseteq> set (A @ B)"
    using 1(3) 2(3) by (auto simp: payloads_append)
  moreover have "length (payloads (tr @ tr')) \<le> length (A @ B)"
    using 1(4) 2(4) by (simp add: payloads_append)
  ultimately show ?thesis
    unfolding trace_rel_def by blast
qed

lemma trace_rel_trans0: "trace_rel w w' [] \<Longrightarrow> trace_rel w' w'' B \<Longrightarrow> trace_rel w w'' B"
  using trace_rel_trans [of w w' "[]" w'' B] by simp

lemmas wrapper_defs = catalog_Get_def catalog_ListAll_def catalog_TransitionState_def
  catalog_Upsert_def catalog_RecordEvent_def storage_DeleteSnapshotPayloadBatch_def Clock_now_def
  record_call_def

lemma quiet_rel_Clock_now: "quiet_rel w (snd (Clock_now w)) []"
  by (simp add: quiet_rel_def Clock_now_def attempted_def payloads_def)

lemma quiet_rel_ListAll: "quiet_rel w (snd (catalog_ListAll w)) []"
  by (simp add: quiet_rel_def wrapper_defs attempted_def payloads_def)

lemma quiet_rel_finalize_step:
  "quiet_rel w (snd (finalize_step gc ok failed err i (metrics, w))) []"
  by (auto simp: quiet_rel_def finalize_step.simps wrapper_defs attempted_def payloads_def Let_def
      split: option.splits prod.splits)

lemma quiet_rel_deleting_step:
  "quiet_rel w (snd (deleting_step i (acc, w))) [i]
   \<and> set (fst (deleting_step i (acc, w))) \<subseteq> set acc \<union> {i}
   \<and> length (fst (deleting_step i (acc, w))) \<le> length acc + 1"
  by (auto simp: quiet_rel_def deleting_step.simps wrapper_defs attempted_def payloads_def
      split: prod.splits bool.splits)

lemma quiet_rel_dryrun_delete_step: "quiet_rel w (dryrun_delete_step now i w) [i]"
  by (simp add: quiet_rel_def dryrun_delete_step.simps wrapper_defs attempted_def payloads_def)

lemma quiet_fold_finalize:
  "quiet_rel w (snd (fold (finalize_step gc ok failed err) ids (metrics, w))) []"
proof (induction ids arbitrary: metrics w)
  case Nil
  show ?case by (simp add: quiet_rel_refl)
next
  case (Cons i ids)
  obtain m' w' where s: "finalize_step gc ok failed err i (metrics, w) = (m', w')"
    by (cases "finalize_step gc ok failed err i (metrics, w)")
  have "quiet_rel w w' []"
    using quiet_rel_finalize_step [of w gc ok failed err i metrics] s by simp
  then show ?case
    using Cons.IH [where metrics = m' and w = w'] s by (auto intro: quiet_rel_trans0)
qed

lemma quiet_fold_deleting:
  "quiet_rel w (snd (fold deleting_step ids (acc, w))) ids
   \<and> set (fst (fold deleting_step ids (acc, w))) \<subseteq> set acc \<union> set ids
   \<and> length (fst (fold deleting_step ids (acc, w))) \<le> length acc + length ids"
proof (induction ids arbitrary: acc w)
  case Nil
  show ?case by (simp add: quiet_rel_refl)
next
  case (Cons i ids)
  obtain acc' w' where s: "deleting_step i (acc, w) = (acc', w')"
    by (cases "deleting_step i (acc, w)")
  have 1: "quiet_rel w w' [i]" "set acc' \<subseteq> set acc \<union> {i}" "length acc' \<le> length acc + 1"
    using quiet_rel_deleting_step [of w i acc] s by simp_all
  have 2: "quiet_rel w' (snd (fold deleting_step ids (acc', w'))) ids"
    "set (fst (fold deleting_step ids (acc', w'))) \<subseteq> set acc' \<union> set ids"
    "length (fst (fold deleting_step ids (acc', w'))) \<le> length acc' + length ids"
    using Cons.IH [where acc = acc' and w = w'] by simp_all
  have "quiet_rel w (snd (fold deleting_step ids (acc', w'))) ([i] @ ids)"
    using 1(1) 2(1) by (rule quiet_rel_trans)
  then show ?case
    using 1(2,3) 2(2,3) by (auto simp: s)
qed

lemma quiet_fold_dryrun: "quiet_rel w (fold (dryrun_delete_step now) ids w) ids"
proof (induction ids arbitrary: w)
  case Nil
  show ?case by (simp add: quiet_rel_refl)
next
  case (Cons i ids)
  have "quiet_rel w (fold (dryrun_delete_step now) ids (dryrun_delete_step now i w)) ([i] @ ids)"
    using quiet_rel_dryrun_delete_step Cons.IH by (rule quiet_rel_trans)
  then show ?case by simp
qed

lemma trace_rel_process_batch:
  "trace_rel w (snd (process_batch gc now ids (metrics, w))) ids"
proof (cases "dryRun (opts gc)")
  case True
  then show ?thesis
    by (simp add: process_batch_def quiet_imp_trace quiet_fold_dryrun)
next
  case False
  obtain dels w1 where d: "fold deleting_step ids ([], w) = (dels, w1)"
    by (cases "fold deleting_step ids ([], w)")
  have 1: "quiet_rel w w1 ids" "set dels \<subseteq> set ids" "length dels \<le> length ids"
    using quiet_fold_deleting [of w ids "[]"] d by simp_all
  show ?thesis
  proof (cases "dels = []")
    case True
    then show ?thesis
      using False 1(1) by (simp add: process_batch_def d quiet_imp_trace)
  next
    case ne: False
    obtain ok failed err w2 where st: "storage_DeleteSnapshotPayloadBatch gc dels [] [] w1
        = ((ok, failed, err), w2)"
      by (cases "storage_DeleteSnapshotPayloadBatch gc dels [] [] w1") auto
    have c2: "calls w2 = calls w1 @ [Call_DeleteSnapshotPayloadBatch dels]"
      using st by (auto simp: storage_DeleteSnapshotPayloadBatch_def record_call_def split: prod.splits)
    let ?w3 = "snd (fold (finalize_step gc ok failed err) dels (metrics, w2))"
    from 1(1) obtain tr1 where t1: "calls w1 = calls w @ tr1" "attempted tr1 = ids" "payloads tr1 = []"
      unfolding quiet_rel_def by blast
    from quiet_fold_finalize [of w2 gc ok failed err dels metrics]
    obtain tr3 where t3: "calls ?w3 = calls w2 @ tr3" "attempted tr3 = []" "payloads tr3 = []"
      unfolding quiet_rel_def by blast
    let ?tr = "tr1 @ [Call_DeleteSnapshotPayloadBatch dels] @ tr3"
    have "calls ?w3 = calls w @ ?tr"
      by (simp add: t1 t3 c2)
    moreover have "attempted ?tr = ids"
      by (simp add: attempted_append attempted_Cons t1 t3)
    moreover have "payloads ?tr = dels"
      by (simp add: payloads_append payloads_Cons t1 t3)
    ultimately have "trace_rel w ?w3 ids"
      using 1(2,3) unfolding trace_rel_def by (intro exI [of _ ?tr]) simp
    then show ?thesis
      using False ne by (simp add: process_batch_def d st)
  qed
qed

lemma eligible_at_grace_elapsed: "eligible_at now s = grace_elapsed now s"
  by (auto simp: eligible_at_def grace_elapsed_def word_neq_0_conv [symmetric] split: option.splits)

lemma eligible_list_props:
  "list_all (grace_elapsed now) (eligible_list gc now all)"
  "set (eligible_list gc now all) \<subseteq> set all"
  "length (eligible_list gc now all) \<le> maxDeletesPerRun (opts gc)"
proof -
  have "set (eligible_list gc now all) \<subseteq> set (filter (eligible_at now) all)"
    by (auto simp: eligible_list_def Let_def dest: in_set_takeD)
  then show "list_all (grace_elapsed now) (eligible_list gc now all)"
    "set (eligible_list gc now all) \<subseteq> set all"
    by (auto simp: list_all_iff eligible_at_grace_elapsed)
  show "length (eligible_list gc now all) \<le> maxDeletesPerRun (opts gc)"
    by (simp add: eligible_list_def Let_def)
qed

lemma trace_rel_batches:
  assumes "0 < batchDeleteSize (opts gc)"
  shows "\<exists>r. batches gc now eligible 0 (metrics, w) = Some r
    \<and> trace_rel w (snd r) (map id' eligible)"
proof -
  let ?Q = "\<lambda>j mw. trace_rel w (snd mw) (map id' (take j eligible))"
  have "\<exists>r k. batches gc now eligible 0 (metrics, w) = Some r \<and> length eligible \<le> k \<and> ?Q k r"
  proof (rule batches_rule [OF assms, where Q = ?Q])
    show "?Q 0 (metrics, w)"
      using quiet_imp_trace [OF quiet_rel_refl] by simp
  next
    fix j and mw :: "GCMetrics \<times> 'a world"
    assume q: "?Q j mw"
    obtain m w1 where mw: "mw = (m, w1)"
      by (cases mw)
    have "trace_rel w1 (snd (process_batch gc now (batchIds_at gc eligible j) mw))
        (batchIds_at gc eligible j)"
      unfolding mw by (rule trace_rel_process_batch)
    with q have "trace_rel w (snd (process_batch gc now (batchIds_at gc eligible j) mw))
        (map id' (take j eligible) @ batchIds_at gc eligible j)"
      unfolding mw by (auto intro: trace_rel_trans)
    then show "?Q (j + batchDeleteSize (opts gc))
        (process_batch gc now (batchIds_at gc eligible j) mw)"
      by (simp add: batchIds_at_def take_add)
  qed
  then show ?thesis
    by auto
qed

subsection \<open>The failure path of the finalization\<close>






subsection \<open>Evaluation of the engine on concrete worlds\<close>

lemmas engine_eval = RunOnce_def RunOnce_leading_def HardDeleteEligible_def TombstoneCandidates_def
  ComputeLiveSet_def process_batch_def batchIds_at_def eligible_list_def eligible_at_def
  tombstone_step.simps inactive_step.simps keep_step.simps finalize_step.simps deleting_step.simps
  dryrun_delete_step.simps MarkLiveWithParents.simps batches.simps
  catalog_ListAll_def catalog_Get_def catalog_TransitionState_def catalog_Upsert_def
  catalog_RecordEvent_def storage_DeleteSnapshotPayloadBatch_def Clock_now_def record_call_def
  ListAll_def Get_def TransitionState_def Upsert_def RecordEvent_def
  isFailed_of_def backoff_ticks_def seconds_to_ticks_def hours_to_ticks_def ticks_per_ms_def
  sort_newest_first_def GCMetrics0_def Let_def word_le_nat_alt word_less_nat_alt

lemmas example_defs = gc_failing_def gc_dry_def gc_keep1_def world_of_def world_x_def world_x2_def world_xy_def
  world_xd_def world_dap_def rec_d_def rec_a2_def rec_p_def
  rec_x_def rec_y_def ex_policy_def ex_opts_def failing_store_def

subsection \<open>Which records the hard-delete stage touches\<close>

lemma touched_append: "touched (tr @ tr') = touched tr @ touched tr'"
  by (simp add: touched_def)

lemma within_refl: "keyed (items (catalog w)) \<Longrightarrow> within S w w"
  by (simp add: within_def touched_def)

lemma within_trans:
  assumes "within S w w'" and "within S w' w''"
  shows "within S w w''"
proof -
  from assms(1) obtain tr where 1: "calls w' = calls w @ tr" "set (touched tr) \<subseteq> S"
    unfolding within_def by blast
  from assms(2) obtain tr' where 2: "calls w'' = calls w' @ tr'" "set (touched tr') \<subseteq> S"
    unfolding within_def by blast
  have "calls w'' = calls w @ (tr @ tr')" "set (touched (tr @ tr')) \<subseteq> S"
    using 1 2 by (simp_all add: touched_append)
  then have "\<exists>t. calls w'' = calls w @ t \<and> set (touched t) \<subseteq> S"
    by blast
  then show ?thesis
    using assms unfolding within_def by simp
qed

lemma within_mono: "within S w w' \<Longrightarrow> S \<subseteq> T \<Longrightarrow> within T w w'"
  unfolding within_def by blast

lemma keyed_map_of: "keyed its \<Longrightarrow> map_of its i = Some m \<Longrightarrow> id' m = i"
  by (induction its) (auto simp: keyed_def split: if_splits)

lemma keyed_member: "keyed its \<Longrightarrow> s \<in> set (map snd its) \<Longrightarrow> map_of its (id' s) = Some s"
  by (induction its) (auto simp: keyed_def rev_image_eqI)

lemma list_all_update:
  "list_all (\<lambda>(k, m). id' m = k) its \<Longrightarrow> list_all (\<lambda>(k, m). id' m = k) (AList.update (id' m) m its)"
  by (induction its) auto

lemma list_all_map_entry:
  "list_all (\<lambda>(k, m). id' m = k) its
    \<Longrightarrow> list_all (\<lambda>(k, m). id' m = k) (AList.map_entry i (\<lambda>m. m\<lparr>state := st\<rparr>) its)"
  by (induction its) auto

lemma keyed_update: "keyed its \<Longrightarrow> keyed (AList.update (id' m) m its)"
  by (simp add: keyed_def distinct_update list_all_update)

lemma keyed_map_entry: "keyed its \<Longrightarrow> keyed (AList.map_entry i (\<lambda>m. m\<lparr>state := st\<rparr>) its)"
  by (simp add: keyed_def distinct_map_entry list_all_map_entry)

lemma map_of_map_entry_other:
  "k \<noteq> i \<Longrightarrow> map_of (AList.map_entry i f its) k = map_of its k"
  by (induction its) auto

lemma map_of_update_other:
  "k \<noteq> i \<Longrightarrow> map_of (AList.update i v its) k = map_of its k"
  by (simp add: update_conv')

lemma within_step:
  assumes "calls w' = calls w @ tr" and "set (touched tr) \<subseteq> S"
    and "\<And>k. k \<notin> S \<Longrightarrow> map_of (items (catalog w')) k = map_of (items (catalog w)) k"
    and "keyed (items (catalog w'))"
  shows "within S w w'"
  using assms unfolding within_def by blast

lemma within_Clock_now: "keyed (items (catalog w)) \<Longrightarrow> within S w (snd (Clock_now w))"
  by (rule within_step [where tr = "[]"]) (simp_all add: Clock_now_def touched_def)

lemma within_ListAll: "keyed (items (catalog w)) \<Longrightarrow> within S w (snd (catalog_ListAll w))"
  by (rule within_step [where tr = "[Call_ListAll]"])
    (simp_all add: catalog_ListAll_def record_call_def touched_def)

lemma within_Get: "keyed (items (catalog w)) \<Longrightarrow> i \<in> S \<Longrightarrow> within S w (snd (catalog_Get i w))"
  by (rule within_step [where tr = "[Call_Get i]"])
    (simp_all add: catalog_Get_def record_call_def touched_def)

lemma within_RecordEvent:
  "keyed (items (catalog w)) \<Longrightarrow> snapshotId e \<in> S \<Longrightarrow> within S w (catalog_RecordEvent e w)"
  by (rule within_step [where tr = "[Call_RecordEvent e]"])
    (simp_all add: catalog_RecordEvent_def record_call_def touched_def RecordEvent_def)

lemma within_TransitionState:
  assumes "keyed (items (catalog w))" and "i \<in> S"
  shows "within S w (snd (catalog_TransitionState i expected desired w))"
proof (rule within_step [where tr = "[Call_TransitionState i expected desired
    (fst (TransitionState (catalog w) i expected desired))]"])
  show "calls (snd (catalog_TransitionState i expected desired w)) = calls w @
      [Call_TransitionState i expected desired (fst (TransitionState (catalog w) i expected desired))]"
    by (simp add: catalog_TransitionState_def record_call_def split: prod.splits)
  show "set (touched [Call_TransitionState i expected desired
      (fst (TransitionState (catalog w) i expected desired))]) \<subseteq> S"
    using assms(2) by (simp add: touched_def)
  show "map_of (items (catalog (snd (catalog_TransitionState i expected desired w)))) k
      = map_of (items (catalog w)) k" if "k \<notin> S" for k
  proof -
    have "k \<noteq> i" using that assms(2) by auto
    then show ?thesis
      by (simp add: catalog_TransitionState_def record_call_def TransitionState_def
          map_of_map_entry_other split: prod.splits option.splits)
  qed
  show "keyed (items (catalog (snd (catalog_TransitionState i expected desired w))))"
    using assms(1)
    by (simp add: catalog_TransitionState_def record_call_def TransitionState_def
        keyed_map_entry split: prod.splits option.splits)
qed

lemma within_Upsert:
  assumes "keyed (items (catalog w))" and "id' m \<in> S"
  shows "within S w (snd (catalog_Upsert m w))"
proof (rule within_step [where tr = "[Call_Upsert m]"])
  show "calls (snd (catalog_Upsert m w)) = calls w @ [Call_Upsert m]"
    by (simp add: catalog_Upsert_def record_call_def Upsert_def)
  show "set (touched [Call_Upsert m]) \<subseteq> S"
    using assms(2) by (simp add: touched_def)
  show "map_of (items (catalog (snd (catalog_Upsert m w)))) k = map_of (items (catalog w)) k"
    if "k \<notin> S" for k
  proof -
    have "k \<noteq> id' m" using that assms(2) by auto
    then show ?thesis
      by (simp add: catalog_Upsert_def record_call_def Upsert_def map_of_update_other)
  qed
  show "keyed (items (catalog (snd (catalog_Upsert m w))))"
    using assms(1) by (simp add: catalog_Upsert_def record_call_def Upsert_def keyed_update)
qed

lemma within_Forget:
  "keyed (items (catalog w)) \<Longrightarrow> i \<in> S
    \<Longrightarrow> within S w (record_call (Call_ForgetCorruptionForSnapshot i) (w\<lparr>env := e\<rparr>))"
  by (rule within_step [where tr = "[Call_ForgetCorruptionForSnapshot i]"])
    (simp_all add: record_call_def touched_def)

lemma within_storage:
  "keyed (items (catalog w)) \<Longrightarrow> set ids \<subseteq> S
    \<Longrightarrow> within S w (snd (storage_DeleteSnapshotPayloadBatch gc ids failed err w))"
  by (rule within_step [where tr = "[Call_DeleteSnapshotPayloadBatch ids]"])
    (simp_all add: storage_DeleteSnapshotPayloadBatch_def record_call_def touched_def split: prod.splits)

lemma within_keyed: "within S w w' \<Longrightarrow> keyed (items (catalog w'))"
  by (simp add: within_def)


lemma within_Clock_now':
  assumes "within S w w0"
  shows "within S w (snd (Clock_now w0))"
  by (rule within_trans [OF assms within_Clock_now [OF within_keyed [OF assms]]])

lemma within_Get':
  assumes "within S w w0" and "i \<in> S"
  shows "within S w (snd (catalog_Get i w0))"
  by (rule within_trans [OF assms(1) within_Get [OF within_keyed [OF assms(1)] assms(2)]])

lemma within_RecordEvent':
  assumes "within S w w0" and "snapshotId e \<in> S"
  shows "within S w (catalog_RecordEvent e w0)"
  by (rule within_trans [OF assms(1) within_RecordEvent [OF within_keyed [OF assms(1)] assms(2)]])

lemma within_TransitionState':
  assumes "within S w w0" and "i \<in> S"
  shows "within S w (snd (catalog_TransitionState i expected desired w0))"
  by (rule within_trans [OF assms(1) within_TransitionState [OF within_keyed [OF assms(1)] assms(2)]])

lemma within_Upsert':
  assumes "within S w w0" and "id' m \<in> S"
  shows "within S w (snd (catalog_Upsert m w0))"
  by (rule within_trans [OF assms(1) within_Upsert [OF within_keyed [OF assms(1)] assms(2)]])

lemma within_Forget':
  assumes "within S w w0" and "i \<in> S"
  shows "within S w (record_call (Call_ForgetCorruptionForSnapshot i) (w0\<lparr>env := e\<rparr>))"
  by (rule within_trans [OF assms(1) within_Forget [OF within_keyed [OF assms(1)] assms(2)]])

lemma fst_catalog_Get: "fst (catalog_Get i w) = Get (catalog w) i"
  by (simp add: catalog_Get_def)

lemma within_finalize_step:
  assumes k: "keyed (items (catalog w))" and i: "i \<in> S"
  shows "within S w (snd (finalize_step gc ok failed err i (metrics, w)))"
proof -
  define W1 where "W1 = snd (catalog_Get i w)"
  have g: "within S w W1"
    unfolding W1_def using within_refl [OF k] i by (rule within_Get')
  have cg: "catalog_Get i w = (Get (catalog w) i, W1)"
    by (simp add: W1_def catalog_Get_def)
  show ?thesis
  proof (cases "Get (catalog w) i")
    case None
    then show ?thesis
      using g by (simp add: finalize_step.simps cg)
  next
    case (Some cur)
    then have c: "id' cur = i"
      using keyed_map_of [OF k] by (simp add: Get_def)
    show ?thesis
    proof (cases "isFailed_of ok failed err i")
      case False
      define W2 where "W2 = snd (catalog_TransitionState i Deleting Deleted W1)"
      define W4 where "W4 = catalog_RecordEvent
          \<lparr>when' = fst (Clock_now W2), snapshotId = i, type' = ''DELETE_OK'',
           details = ''Payload permanently deleted''\<rparr> (snd (Clock_now W2))"
      have 2: "within S w W2"
        unfolding W2_def using g i by (rule within_TransitionState')
      have 4: "within S w W4"
        unfolding W4_def using within_Clock_now' [OF 2] i by (intro within_RecordEvent') simp_all
      have 5: "within S w (record_call (Call_ForgetCorruptionForSnapshot i) (W4\<lparr>env := e\<rparr>))" for e
        using 4 i by (rule within_Forget')
      have "snd (finalize_step gc ok failed err i (metrics, w)) =
          (case corruption gc of None \<Rightarrow> W4
           | Some forget \<Rightarrow> record_call (Call_ForgetCorruptionForSnapshot i)
               (W4\<lparr>env := forget i (env W4)\<rparr>))"
        using False
        by (simp add: finalize_step.simps cg Some split_beta Let_def W2_def W4_def
            split: option.splits)
      then show ?thesis
        using 4 5 by (simp split: option.splits)
    next
      case True
      define m where "m = cur\<lparr>deleteFailures := deleteFailures cur + 1,
          lastError := (if err = [] then ''Delete failed'' else err),
          nextRetryAfter := Some (fst (Clock_now W1) + backoff_ticks gc (deleteFailures cur + 1))\<rparr>"
      define target where "target = (if deleteFailures m \<ge> maxDeleteFailuresBeforeQuarantine (opts gc)
          then Quarantined else Tombstoned)"
      define W2 where "W2 = snd (catalog_TransitionState i Deleting target (snd (Clock_now W1)))"
      have im: "id' m = i"
        by (simp add: m_def c)
      have 2: "within S w W2"
        unfolding W2_def using within_Clock_now' [OF g] i by (rule within_TransitionState')
      have 3: "within S w (snd (catalog_Upsert m (catalog_RecordEvent e (snd (Clock_now W2)))))"
        if "snapshotId e = i" for e
        using within_Clock_now' [OF 2] that i im
        by (intro within_Upsert' within_RecordEvent') simp_all
      define ev where "ev = \<lparr>when' = fst (Clock_now W2), snapshotId = i,
          type' = (if target = Quarantined then ''QUARANTINE'' else ''DELETE_FAIL''),
          details = (if target = Quarantined then ''Too many delete failures: '' @ lastError m
            else ''Will retry after backoff; err='' @ lastError m)\<rparr>"
      have "snd (finalize_step gc ok failed err i (metrics, w)) =
          snd (catalog_Upsert m (catalog_RecordEvent ev (snd (Clock_now W2))))"
        using True
        by (simp add: finalize_step.simps cg Some split_beta Let_def W2_def m_def target_def ev_def)
      then show ?thesis
        using 3 [of ev] by (simp add: ev_def)
    qed
  qed
qed


lemma within_fold_finalize:
  assumes "within S w0 w" and "set ids \<subseteq> S"
  shows "within S w0 (snd (fold (finalize_step gc ok failed err) ids (metrics, w)))"
  using assms
proof (induction ids arbitrary: metrics w)
  case Nil
  then show ?case by simp
next
  case (Cons i ids)
  obtain m' w' where s: "finalize_step gc ok failed err i (metrics, w) = (m', w')"
    by (cases "finalize_step gc ok failed err i (metrics, w)")
  have "within S w w'"
    using within_finalize_step [OF within_keyed [OF Cons.prems(1)], of i S gc ok failed err metrics]
      Cons.prems(2) s by simp
  then have "within S w0 w'"
    using Cons.prems(1) within_trans by blast
  then show ?case
    using Cons.IH [of w' m'] Cons.prems(2) s by simp
qed

lemma snd_deleting_step:
  "snd (deleting_step i (acc, w)) = snd (catalog_TransitionState i Tombstoned Deleting w)"
  by (simp add: deleting_step.simps split: prod.splits bool.splits)

lemma within_fold_deleting:
  assumes "within S w0 w" and "set ids \<subseteq> S"
  shows "within S w0 (snd (fold deleting_step ids (acc, w)))"
  using assms
proof (induction ids arbitrary: acc w)
  case Nil
  then show ?case by simp
next
  case (Cons i ids)
  obtain acc' w' where s: "deleting_step i (acc, w) = (acc', w')"
    by (cases "deleting_step i (acc, w)")
  have "within S w0 w'"
    using within_TransitionState' [OF Cons.prems(1), of i Tombstoned Deleting] Cons.prems(2)
      snd_deleting_step [of i acc w] s by simp
  then show ?case
    using Cons.IH [of w' acc'] Cons.prems(2) s by simp
qed

lemma within_fold_dryrun:
  assumes "within S w0 w" and "set ids \<subseteq> S"
  shows "within S w0 (fold (dryrun_delete_step now) ids w)"
  using assms
proof (induction ids arbitrary: w)
  case Nil
  then show ?case by simp
next
  case (Cons i ids)
  have "within S w0 (dryrun_delete_step now i w)"
    using Cons.prems by (simp add: dryrun_delete_step.simps within_RecordEvent')
  then show ?case
    using Cons.IH [of "dryrun_delete_step now i w"] Cons.prems(2) by simp
qed

lemma within_process_batch:
  assumes "within S w0 w" and "set ids \<subseteq> S"
  shows "within S w0 (snd (process_batch gc now ids (metrics, w)))"
proof (cases "dryRun (opts gc)")
  case True
  then show ?thesis
    using within_fold_dryrun [OF assms] by (simp add: process_batch_def)
next
  case False
  obtain dels w1 where d: "fold deleting_step ids ([], w) = (dels, w1)"
    by (cases "fold deleting_step ids ([], w)")
  have 1: "within S w0 w1"
    using within_fold_deleting [OF assms, of "[]"] d by simp
  have sub: "set dels \<subseteq> S"
    using quiet_fold_deleting [of w ids "[]"] d assms(2) by auto
  show ?thesis
  proof (cases "dels = []")
    case True
    then show ?thesis
      using False 1 by (simp add: process_batch_def d)
  next
    case ne: False
    obtain ok failed err w2 where st: "storage_DeleteSnapshotPayloadBatch gc dels [] [] w1
        = ((ok, failed, err), w2)"
      by (cases "storage_DeleteSnapshotPayloadBatch gc dels [] [] w1") auto
    have "within S w1 w2"
      using within_storage [OF within_keyed [OF 1] sub, of gc "[]" "[]"] st by simp
    then have "within S w0 w2"
      using 1 within_trans by blast
    then have "within S w0 (snd (fold (finalize_step gc ok failed err) dels (metrics, w2)))"
      using sub by (rule within_fold_finalize)
    then show ?thesis
      using False ne by (simp add: process_batch_def d st)
  qed
qed

lemma within_batches:
  assumes "0 < batchDeleteSize (opts gc)" and "keyed (items (catalog w))"
  shows "\<exists>r. batches gc now eligible 0 (metrics, w) = Some r
    \<and> within (set (map id' eligible)) w (snd r)"
proof -
  let ?S = "set (map id' eligible)"
  let ?Q = "\<lambda>(j :: nat) mw. within ?S w (snd mw)"
  have "\<exists>r k. batches gc now eligible 0 (metrics, w) = Some r \<and> length eligible \<le> k \<and> ?Q k r"
  proof (rule batches_rule [OF assms(1), where Q = ?Q])
    show "?Q 0 (metrics, w)"
      using within_refl [OF assms(2)] by simp
  next
    fix j and mw :: "GCMetrics \<times> 'a world"
    assume q: "?Q j mw"
    obtain m w1 where mw: "mw = (m, w1)"
      by (cases mw)
    have "set (batchIds_at gc eligible j) \<subseteq> ?S"
      by (auto simp: batchIds_at_def dest!: in_set_takeD in_set_dropD)
    then show "?Q (j + batchDeleteSize (opts gc))
        (process_batch gc now (batchIds_at gc eligible j) mw)"
      using q unfolding mw by (simp add: within_process_batch)
  qed
  then show ?thesis
    by auto
qed

lemma batches_zero_diverges_aux:
  assumes "batches gc now eligible i mw = Some r"
  shows "batchDeleteSize (opts gc) = 0 \<longrightarrow> \<not> i < length eligible"
proof (rule batches.raw_induct [where P = "\<lambda>gc now el i mw r.
      batchDeleteSize (opts gc) = 0 \<longrightarrow> \<not> i < length el", OF _ assms])
  fix batches' gc now eligible i and mw r :: "GCMetrics \<times> 'a world"
  assume ih: "\<And>gc now eligible i mw r. batches' gc now eligible i mw = Some r
      \<Longrightarrow> batchDeleteSize (opts gc) = 0 \<longrightarrow> \<not> i < length eligible"
    and body: "(if i < length eligible
      then batches' gc now eligible (i + batchDeleteSize (opts gc))
            (process_batch gc now (batchIds_at gc eligible i) mw)
      else Some mw) = Some r"
  show "batchDeleteSize (opts gc) = 0 \<longrightarrow> \<not> i < length eligible"
  proof (intro impI notI)
    assume z: "batchDeleteSize (opts gc) = 0" and lt: "i < length eligible"
    with body have "batches' gc now eligible i
        (process_batch gc now (batchIds_at gc eligible i) mw) = Some r"
      by simp
    from ih [OF this] z lt show False
      by simp
  qed
qed

lemma batches_zero_diverges:
  assumes "batchDeleteSize (opts gc) = 0" and "i < length eligible"
  shows "batches gc now eligible i mw = None"
  using batches_zero_diverges_aux [of gc now eligible i mw] assms
  by (cases "batches gc now eligible i mw") auto


lemma keyed_Nil: "keyed []"
  by (simp add: keyed_def)

lemma keyed_replay_line: "keyed its \<Longrightarrow> replay_line l its = Inr its' \<Longrightarrow> keyed its'"
  by (auto simp: replay_line_def ebind_def keyed_update keyed_map_entry
      split: if_splits sum.splits prod.splits option.splits)

lemma keyed_replay_lines: "keyed its \<Longrightarrow> replay_lines ls its = Inr its' \<Longrightarrow> keyed its'"
proof (induction ls arbitrary: its)
  case Nil
  then show ?case by simp
next
  case (Cons l ls)
  then show ?case
    by (cases "replay_line l its") (auto simp: ebind_def dest: keyed_replay_line)
qed

lemma keyed_Replay: "Replay file = Inr its \<Longrightarrow> keyed its"
  unfolding Replay_def using keyed_replay_lines [OF keyed_Nil] by blast

lemma keyed_open: "JournalCatalog_open file = Inr c \<Longrightarrow> keyed (items c)"
  by (auto simp: JournalCatalog_open_def ebind_def keyed_Replay split: sum.splits)

lemma keyed_apply_op: "keyed (items c) \<Longrightarrow> keyed (items (apply_op op c))"
  by (cases op)
    (auto simp: Upsert_def TransitionState_def RecordEvent_def keyed_update keyed_map_entry
      split: option.splits)

lemma process_batch_Nil: "process_batch gc now [] mw = mw"
  by (cases mw) (simp add: process_batch_def)

lemma stage_batches:
  assumes "keyed (items (catalog w))" and "0 < batchDeleteSize (opts gc) \<or> eligible = []"
  shows "\<exists>r. batches gc now eligible 0 (metrics, w) = Some r
    \<and> trace_rel w (snd r) (map id' eligible)
    \<and> within (set (map id' eligible)) w (snd r)"
proof (cases "0 < batchDeleteSize (opts gc)")
  case True
  from trace_rel_batches [OF True, of now eligible metrics w]
    within_batches [OF True assms(1), of now eligible metrics]
  show ?thesis
    by auto
next
  case False
  then have e: "eligible = []"
    using assms(2) by simp
  have "batches gc now eligible 0 (metrics, w) = Some (metrics, w)"
    unfolding e by (simp add: batches.simps)
  moreover have "trace_rel w w (map id' eligible)"
    unfolding e using quiet_imp_trace [OF quiet_rel_refl] by simp
  moreover have "within (set (map id' eligible)) w w"
    using assms(1) by (rule within_refl)
  ultimately show ?thesis
    by simp
qed

lemma eligible_list_Get:
  assumes "keyed (items (catalog w))"
  shows "list_all (\<lambda>s. Get (catalog w) (id' s) = Some s \<and> grace_elapsed now s)
    (eligible_list gc now (ListAll (catalog w)))"
proof -
  have "Get (catalog w) (id' s) = Some s" if "s \<in> set (eligible_list gc now (ListAll (catalog w)))" for s
    using that eligible_list_props(2) [of gc now "ListAll (catalog w)"] keyed_member [OF assms, of s]
    by (auto simp: Get_def ListAll_def)
  then show ?thesis
    using eligible_list_props(1) [of now gc "ListAll (catalog w)"]
    by (simp add: list_all_iff)
qed

lemma keyed_apply_ops: "keyed (items c) \<Longrightarrow> keyed (items (apply_ops ops c))"
  unfolding apply_ops_def by (induction ops arbitrary: c) (simp_all add: keyed_apply_op)

lemma keyed_fresh_catalog: "keyed (items fresh_catalog)"
  by (simp add: fresh_catalog_def keyed_Nil)

subsection \<open>What the journal keeps of a failed delete\<close>





















section \<open>The claims\<close>

text \<open>
  C9. If an elector is configured and \<open>TryAcquire\<close> returns false, \<open>RunOnce\<close> returns
  the all-zero metrics and its only call on a collaborator is that \<open>TryAcquire\<close>: the
  catalog is as it was (no \<open>ListAll\<close>, no transition, no \<open>Upsert\<close>, no event), the
  clock was not read, and \<open>Release\<close> is not called.
\<close>

theorem RunOnce_not_leader:
  assumes "leader gc = Some l" and "\<not> fst (TryAcquire l (env w))"
  shows "RunOnce gc w =
    Some (GCMetrics0,
      w\<lparr>env := snd (TryAcquire l (env w)), calls := calls w @ [Call_TryAcquire False]\<rparr>)"
  using assms by (auto simp: RunOnce_def record_call_def Let_def split: prod.splits)

theorem RunOnce_not_leader_witness:
  "leader gc_not_leader = Some never_leader
   \<and> \<not> fst (TryAcquire never_leader (env empty_world))
   \<and> RunOnce gc_not_leader empty_world =
       Some (\<lparr>scanned = 0, tombstoned = 0, deleted = 0, quarantined = 0, deleteFailed = 0,
               inactiveLoadedSignals = 0\<rparr>,
             \<lparr>catalog = \<lparr>items = [], journal = []\<rparr>, env = 0, clock = (\<lambda>n. int n), reads = 0,
              calls = [Call_TryAcquire False]\<rparr>)"
  using RunOnce_not_leader [of gc_not_leader never_leader empty_world]
  by (simp add: gc_not_leader_def never_leader_def empty_world_def GCMetrics0_def)

text \<open>
  C10. The default \<open>DeleteSnapshotPayloadBatch\<close> and the filesystem backend's both
  return with \<open>err\<close> empty, whatever it held on entry. Called as the engine calls them
  (\<open>failed\<close> and \<open>err\<close> empty), the catastrophic condition (not ok, \<open>failed\<close> empty,
  \<open>err\<close> not empty) is false, the result is ok exactly when no single delete failed,
  and an id counts as failed exactly when its single delete failed.
\<close>

theorem batch_delete_err_cleared:
  "snd (snd (fst (DeleteSnapshotPayloadBatch_default del ids failed err ev))) = []
   \<and> snd (snd (fst (FilesystemStorage_DeleteSnapshotPayloadBatch fs ids failed err ev))) = []
   \<and> (case fst (DeleteSnapshotPayloadBatch_default del ids [] [] ev) of
        (ok, failed', err') \<Rightarrow>
          \<not> (\<not> ok \<and> failed' = [] \<and> err' \<noteq> [])
          \<and> ok = (failures_of del ids ev = [])
          \<and> failed' = failures_of del ids ev
          \<and> isFailed_of ok failed' err' i = (i \<in> set (failures_of del ids ev)))
   \<and> (case fst (FilesystemStorage_DeleteSnapshotPayloadBatch fs ids [] [] ev) of
        (ok, failed', err') \<Rightarrow>
          \<not> (\<not> ok \<and> failed' = [] \<and> err' \<noteq> [])
          \<and> ok = (failures_of (FilesystemStorage_DeleteSnapshotPayload fs) ids ev = [])
          \<and> failed' = failures_of (FilesystemStorage_DeleteSnapshotPayload fs) ids ev
          \<and> isFailed_of ok failed' err' i
              = (i \<in> set (failures_of (FilesystemStorage_DeleteSnapshotPayload fs) ids ev)))"
proof -
  have d: "DeleteSnapshotPayloadBatch_default d ids f err ev =
      ((failures_of d ids ev = [], f @ failures_of d ids ev, []),
       snd (snd (batch_loop d ids (True, f, ev))))" for d :: "'a single_delete" and f err
    using batch_loop_failures [of d ids True f ev]
    by (auto simp: DeleteSnapshotPayloadBatch_default_def split: prod.splits)
  have f: "FilesystemStorage_DeleteSnapshotPayloadBatch fs ids f err ev =
      DeleteSnapshotPayloadBatch_default (FilesystemStorage_DeleteSnapshotPayload fs) ids f err ev" for f err
    by (simp add: FilesystemStorage_DeleteSnapshotPayloadBatch_def
        DeleteSnapshotPayloadBatch_default_def FilesystemStorage_loop_eq)
  show ?thesis
    by (simp add: f d isFailed_of_def)
qed

text \<open>
  C4, as amended. For every record that is \<open>serializable\<close> (no field separator in the id
  or the error text, time points in whole milliseconds, optional time points not
  negative), \<open>Deserialize (Serialize m)\<close> returns \<open>m\<close> with \<open>parentId\<close> absent and \<open>tags\<close>
  empty: every field of the format comes back as it was, an error text with newline,
  carriage return and backslash included; \<open>parentId\<close> and \<open>tags\<close> are not part of the
  format.
\<close>

theorem Deserialize_Serialize:
  assumes "serializable m"
  shows "Deserialize (Serialize m) = Inr (m\<lparr>parentId := None, tags := {}\<rparr>)"
  using assms by (cases m) (simp add: serializable_def Deserialize_fields)

theorem Deserialize_Serialize_witness:
  "serializable rec_a
   \<and> Serialize rec_a = ''a|5|42|1|0|0|7|2|-1|x'' @ [c_bs, CHR ''n'', c_bs, c_bs, c_bs, CHR ''r'', CHR ''n'']
   \<and> Deserialize (Serialize rec_a) = Inr rec_a"
proof -
  have "rec_a\<lparr>parentId := None, tags := {}\<rparr> = rec_a"
    by (simp add: rec_a_def)
  moreover have "Serialize rec_a =
      ''a|5|42|1|0|0|7|2|-1|x'' @ [c_bs, CHR ''n'', c_bs, c_bs, c_bs, CHR ''r'', CHR ''n'']"
    by (simp add: rec_a_def ser_eval)
  ultimately show ?thesis
    using Deserialize_Serialize [OF serializable_rec_a] serializable_rec_a by simp
qed

text \<open>
  C4 as stated fails: a record with a parent or a tag does not come back, nor does
  one whose error text holds the field separator, one with a time point that is not
  a whole millisecond, or one with a negative optional time point.
\<close>

theorem Deserialize_Serialize_counterexample:
  "Deserialize (Serialize (rec_a\<lparr>parentId := Some ''p''\<rparr>)) \<noteq> Inr (rec_a\<lparr>parentId := Some ''p''\<rparr>)
   \<and> Deserialize (Serialize (rec_a\<lparr>tags := {''pin''}\<rparr>)) \<noteq> Inr (rec_a\<lparr>tags := {''pin''}\<rparr>)
   \<and> Deserialize (Serialize (rec_a\<lparr>lastError := ''a|b''\<rparr>)) = Inr (rec_a\<lparr>lastError := ''a''\<rparr>)
   \<and> Deserialize (Serialize (rec_a\<lparr>created := 5000001\<rparr>)) = Inr rec_a
   \<and> Deserialize (Serialize (rec_a\<lparr>nextRetryAfter := Some (- 3000000)\<rparr>)) = Inr rec_a"
proof -
  have 1: "Deserialize (Serialize (rec_a\<lparr>parentId := Some ''p''\<rparr>)) = Inr rec_a"
    by (simp add: rec_a_def ser_eval) (simp add: deser_eval)
  have 2: "Deserialize (Serialize (rec_a\<lparr>tags := {''pin''}\<rparr>)) = Inr rec_a"
    by (simp add: rec_a_def ser_eval) (simp add: deser_eval)
  have 3: "Deserialize (Serialize (rec_a\<lparr>lastError := ''a|b''\<rparr>)) = Inr (rec_a\<lparr>lastError := ''a''\<rparr>)"
    by (simp add: rec_a_def ser_eval) (simp add: deser_eval)
  have 4: "Deserialize (Serialize (rec_a\<lparr>created := 5000001\<rparr>)) = Inr rec_a"
    by (simp add: rec_a_def ser_eval) (simp add: deser_eval)
  have 5: "Deserialize (Serialize (rec_a\<lparr>nextRetryAfter := Some (- 3000000)\<rparr>)) = Inr rec_a"
    by (simp add: rec_a_def ser_eval) (simp add: deser_eval)
  show ?thesis
    unfolding 1 2 3 4 5 by (simp add: rec_a_def)
qed

text \<open>
  C3, as amended. Take a catalog that is consistent with its journal (a catalog just
  opened on an absent or empty journal is) and any sequence of \<open>Upsert\<close>,
  \<open>TransitionState\<close> and \<open>RecordEvent\<close> operations that are \<open>op_ok\<close>. Constructing a
  new catalog on the journal that results succeeds and rebuilds the in-memory map,
  entry by entry and in the same order, except that every record comes back with
  \<open>parentId\<close> absent and \<open>tags\<close> empty.
\<close>

theorem Replay_reconstructs:
  assumes "journal_consistent c" and "list_all op_ok ops"
  shows "JournalCatalog_open (journal (apply_ops ops c))
    = Inr \<lparr>items = journal_views (items (apply_ops ops c)), journal = journal (apply_ops ops c)\<rparr>"
  using apply_ops_consistent [OF assms]
  by (simp add: journal_consistent_def JournalCatalog_open_def ebind_Inr)

theorem Replay_reconstructs_witness:
  "journal_consistent fresh_catalog \<and> list_all op_ok ops_a
   \<and> items (apply_ops ops_a fresh_catalog) = [(''a'', rec_a\<lparr>state := Deleting\<rparr>)]
   \<and> Replay (journal (apply_ops ops_a fresh_catalog)) = Inr [(''a'', rec_a\<lparr>state := Deleting\<rparr>)]"
proof -
  have ok: "list_all op_ok ops_a"
    using serializable_rec_a
    by (simp add: ops_a_def nl_free_def token_id_def isspace_def ev_a_def)
      (simp add: rec_a_def char_defs)
  have its: "items (apply_ops ops_a fresh_catalog) = [(''a'', rec_a\<lparr>state := Deleting\<rparr>)]"
    by (simp add: ops_a_def apply_ops_def fresh_catalog_def Upsert_def TransitionState_def
        RecordEvent_def rec_a_def)
  have "journal_views [(''a'', rec_a\<lparr>state := Deleting\<rparr>)] = [(''a'', rec_a\<lparr>state := Deleting\<rparr>)]"
    by (simp add: journal_views_def journal_view_def rec_a_def)
  then show ?thesis
    using Replay_reconstructs [OF fresh_catalog_consistent ok] ok fresh_catalog_consistent
    by (simp add: its JournalCatalog_open_def ebind_def split: sum.splits)
qed

text \<open>
  C3 as stated fails. After an \<open>Upsert\<close> of a record with a parent on a fresh catalog,
  the replay of the journal is not the in-memory map. Nor is it after a transition
  of a record whose id holds a space (the \<open>STATE\<close> line is read back with another id
  and the state stays as upserted), or after an event whose type holds a newline
  (the rest of the type is read back as a line of its own, here an \<open>UPSERT\<close> of a
  record \<open>q\<close> that the catalog never held).
\<close>

theorem Replay_reconstructs_counterexample:
  "Replay (journal (apply_ops [Op_Upsert (rec_a\<lparr>parentId := Some ''p''\<rparr>)] fresh_catalog))
     = Inr [(''a'', rec_a)]
   \<and> items (apply_ops [Op_Upsert (rec_a\<lparr>parentId := Some ''p''\<rparr>)] fresh_catalog)
     = [(''a'', rec_a\<lparr>parentId := Some ''p''\<rparr>)]
   \<and> rec_a \<noteq> rec_a\<lparr>parentId := Some ''p''\<rparr>
   \<and> Replay (journal (apply_ops [Op_Upsert (rec_a\<lparr>id' := ''a b''\<rparr>),
        Op_TransitionState ''a b'' Tombstoned Deleting] fresh_catalog))
     = Inr [(''a b'', rec_a\<lparr>id' := ''a b''\<rparr>)]
   \<and> items (apply_ops [Op_Upsert (rec_a\<lparr>id' := ''a b''\<rparr>),
        Op_TransitionState ''a b'' Tombstoned Deleting] fresh_catalog)
     = [(''a b'', rec_a\<lparr>id' := ''a b'', state := Deleting\<rparr>)]
   \<and> Replay (journal (apply_ops [Op_RecordEvent ev_inject] fresh_catalog))
     = Inr [(''q'', SnapshotMeta0\<lparr>id' := ''q'', lastError := '' ''\<rparr>)]
   \<and> items (apply_ops [Op_RecordEvent ev_inject] fresh_catalog) = []"
proof -
  have ok: "list_all op_ok [Op_Upsert (rec_a\<lparr>parentId := Some ''p''\<rparr>)]"
    using serializable_rec_a
    by (simp add: serializable_def nl_free_def) (simp add: rec_a_def char_defs)
  have its: "items (apply_ops [Op_Upsert (rec_a\<lparr>parentId := Some ''p''\<rparr>)] fresh_catalog)
      = [(''a'', rec_a\<lparr>parentId := Some ''p''\<rparr>)]"
    by (simp add: apply_ops_def fresh_catalog_def Upsert_def rec_a_def)
  have "journal_views [(''a'', rec_a\<lparr>parentId := Some ''p''\<rparr>)] = [(''a'', rec_a)]"
    by (simp add: journal_views_def journal_view_def rec_a_def)
  then have 1: "Replay (journal (apply_ops [Op_Upsert (rec_a\<lparr>parentId := Some ''p''\<rparr>)] fresh_catalog))
      = Inr [(''a'', rec_a)]"
    using apply_ops_consistent [OF fresh_catalog_consistent ok]
    by (simp add: its journal_consistent_def)
  have 2: "rec_a \<noteq> rec_a\<lparr>parentId := Some ''p''\<rparr>"
    by (simp add: rec_a_def)
  have 3: "Replay (journal (apply_ops [Op_Upsert (rec_a\<lparr>id' := ''a b''\<rparr>),
        Op_TransitionState ''a b'' Tombstoned Deleting] fresh_catalog))
      = Inr [(''a b'', rec_a\<lparr>id' := ''a b''\<rparr>)]"
    by (simp add: replay_eval rec_a_def ser_eval) (simp add: deser_eval replay_eval)
  have 4: "items (apply_ops [Op_Upsert (rec_a\<lparr>id' := ''a b''\<rparr>),
        Op_TransitionState ''a b'' Tombstoned Deleting] fresh_catalog)
      = [(''a b'', rec_a\<lparr>id' := ''a b'', state := Deleting\<rparr>)]"
    by (simp add: replay_eval rec_a_def)
  have 5: "Replay (journal (apply_ops [Op_RecordEvent ev_inject] fresh_catalog))
      = Inr [(''q'', SnapshotMeta0\<lparr>id' := ''q'', lastError := '' ''\<rparr>)]"
    by (simp add: replay_eval ev_inject_def) (simp add: deser_eval)
  have 6: "items (apply_ops [Op_RecordEvent ev_inject] fresh_catalog) = []"
    by (simp add: replay_eval)
  show ?thesis
    using 1 its 2 3 4 5 6 by blast
qed

text \<open>
  C6. Started on a catalog that is \<open>keyed\<close>, the hard-delete stage returns unless the
  batch size is 0 and the list is not empty (then the loop of the source never ends,
  each of its turns handling the empty batch and changing nothing). When it returns,
  every call it made (\<open>Get\<close>, \<open>TransitionState\<close>, \<open>Upsert\<close>, \<open>RecordEvent\<close>, the
  payload delete, the corruption tracker) names only ids of \<open>eligible_list\<close>, the ids
  it tries to move to Deleting are exactly those, in order, every id handed to the
  storage backend is one of them, and the record of every other id is as it was.
  Each record of \<open>eligible_list\<close> is the catalog's record of its id when the stage
  starts and is Tombstoned, unleased, with \<open>hardDeleteAfter\<close> set and not after \<open>now\<close>
  and \<open>nextRetryAfter\<close> unset or not after \<open>now\<close>, where \<open>now\<close> is the clock reading the
  stage starts with; there are at most \<open>maxDeletesPerRun\<close> of them. So no payload is
  deleted before its record's stored \<open>hardDeleteAfter\<close>.
\<close>

theorem hard_delete_only_eligible:
  assumes "keyed (items (catalog w))"
  shows "(case HardDeleteEligible gc (metrics, w) of
       None \<Rightarrow>
         batchDeleteSize (opts gc) = 0
         \<and> eligible_list gc (clock w (reads w)) (ListAll (catalog w)) \<noteq> []
         \<and> (\<forall>i mw. process_batch gc (clock w (reads w))
               (batchIds_at gc (eligible_list gc (clock w (reads w)) (ListAll (catalog w))) i) mw = mw)
     | Some (metrics', w') \<Rightarrow>
         (0 < batchDeleteSize (opts gc)
            \<or> eligible_list gc (clock w (reads w)) (ListAll (catalog w)) = [])
         \<and> calls w' = calls w @ new_calls w w'
         \<and> set (touched (new_calls w w'))
             \<subseteq> set (map id' (eligible_list gc (clock w (reads w)) (ListAll (catalog w))))
         \<and> attempted (new_calls w w')
             = map id' (eligible_list gc (clock w (reads w)) (ListAll (catalog w)))
         \<and> set (payloads (new_calls w w')) \<subseteq> set (attempted (new_calls w w'))
         \<and> length (payloads (new_calls w w')) \<le> length (attempted (new_calls w w'))
         \<and> (\<forall>k. k \<notin> set (map id' (eligible_list gc (clock w (reads w)) (ListAll (catalog w))))
               \<longrightarrow> Get (catalog w') k = Get (catalog w) k)
         \<and> keyed (items (catalog w')))
    \<and> list_all (\<lambda>s. Get (catalog w) (id' s) = Some s \<and> grace_elapsed (clock w (reads w)) s)
        (eligible_list gc (clock w (reads w)) (ListAll (catalog w)))
    \<and> length (eligible_list gc (clock w (reads w)) (ListAll (catalog w)))
        \<le> maxDeletesPerRun (opts gc)"
proof -
  let ?now = "clock w (reads w)"
  let ?all = "ListAll (catalog w)"
  let ?el = "eligible_list gc ?now ?all"
  let ?S = "set (map id' ?el)"
  let ?w1 = "w\<lparr>reads := Suc (reads w)\<rparr>"
  let ?w2 = "record_call Call_ListAll ?w1"
  have c: "Clock_now w = (?now, ?w1)"
    by (simp add: Clock_now_def)
  have l: "catalog_ListAll ?w1 = (?all, ?w2)"
    by (simp add: catalog_ListAll_def)
  have h: "HardDeleteEligible gc (metrics, w) = batches gc ?now ?el 0 (metrics, ?w2)"
    by (simp add: HardDeleteEligible_def c l)
  have k2: "keyed (items (catalog ?w2))"
    using assms by (simp add: record_call_def)
  have t0: "trace_rel w ?w2 []"
    using quiet_rel_trans [OF quiet_rel_Clock_now quiet_rel_ListAll, of w]
    by (simp add: quiet_imp_trace Clock_now_def catalog_ListAll_def)
  have "within ?S w ?w1"
    using within_Clock_now [OF assms, where S = ?S] by (simp add: Clock_now_def)
  moreover have "within ?S ?w1 ?w2"
    using within_ListAll [where w = ?w1 and S = ?S] assms by (simp add: catalog_ListAll_def)
  ultimately have i0: "within ?S w ?w2"
    by (rule within_trans)
  have props: "list_all (\<lambda>s. Get (catalog w) (id' s) = Some s \<and> grace_elapsed ?now s) ?el"
    "length ?el \<le> maxDeletesPerRun (opts gc)"
    using eligible_list_Get [OF assms] eligible_list_props(3) by blast+
  show ?thesis
  proof (cases "0 < batchDeleteSize (opts gc) \<or> ?el = []")
    case True
    from stage_batches [OF k2 True, of ?now metrics]
    obtain r where r: "batches gc ?now ?el 0 (metrics, ?w2) = Some r"
      and t: "trace_rel ?w2 (snd r) (map id' ?el)"
      and i: "within ?S ?w2 (snd r)"
      by blast
    have "trace_rel w (snd r) (map id' ?el)"
      using t0 t by (rule trace_rel_trans0)
    then obtain tr where tr: "calls (snd r) = calls w @ tr"
      "attempted tr = map id' ?el"
      "set (payloads tr) \<subseteq> set (map id' ?el)"
      "length (payloads tr) \<le> length (map id' ?el)"
      unfolding trace_rel_def by blast
    have n: "new_calls w (snd r) = tr"
      by (simp add: new_calls_def tr(1))
    have wi: "within ?S w (snd r)"
      using i0 i by (rule within_trans)
    then obtain tr' where tr': "calls (snd r) = calls w @ tr'" "set (touched tr') \<subseteq> ?S"
      unfolding within_def by blast
    have same: "tr' = tr"
      using tr(1) tr'(1) by simp
    have 1: "calls (snd r) = calls w @ new_calls w (snd r)"
      unfolding n by (rule tr(1))
    have 2: "attempted (new_calls w (snd r)) = map id' ?el"
      unfolding n by (rule tr(2))
    have 3: "set (payloads (new_calls w (snd r))) \<subseteq> set (attempted (new_calls w (snd r)))"
      unfolding 2 unfolding n by (rule tr(3))
    have 4: "length (payloads (new_calls w (snd r))) \<le> length (attempted (new_calls w (snd r)))"
      unfolding 2 unfolding n by (rule tr(4))
    have 5: "set (touched (new_calls w (snd r))) \<subseteq> ?S"
      unfolding n using tr'(2) same by simp
    have 6: "\<forall>k. k \<notin> ?S \<longrightarrow> Get (catalog (snd r)) k = Get (catalog w) k"
      using wi unfolding within_def Get_def by blast
    have 7: "keyed (items (catalog (snd r)))"
      using wi by (rule within_keyed)
    have "HardDeleteEligible gc (metrics, w) = Some (fst r, snd r)"
      using h r by simp
    then show ?thesis
      using True 1 2 3 4 5 6 7 props by (simp add: split_beta)
  next
    case False
    then have z: "batchDeleteSize (opts gc) = 0" and ne: "?el \<noteq> []"
      by simp_all
    have "HardDeleteEligible gc (metrics, w) = None"
      unfolding h using z ne by (simp add: batches_zero_diverges)
    moreover have "process_batch gc ?now (batchIds_at gc ?el i) mw = mw" for i mw
      by (simp add: batchIds_at_def z process_batch_Nil)
    ultimately show ?thesis
      using z ne props by simp
  qed
qed


theorem hard_delete_only_eligible_witness:
  "keyed (items (catalog world_xy))
   \<and> (\<exists>metrics' w'. HardDeleteEligible gc_failing (GCMetrics0, world_xy) = Some (metrics', w')
        \<and> attempted (new_calls world_xy w') = [''x''] \<and> payloads (new_calls world_xy w') = [''x'']
        \<and> set (touched (new_calls world_xy w')) = {''x''}
        \<and> Get (catalog w') ''y'' = Some rec_y)
   \<and> HardDeleteEligible gc_batch0 (GCMetrics0, world_xy) = None"
proof -
  have k: "keyed (items (catalog world_xy))"
    by (simp add: keyed_def example_defs)
  have e: "eligible_list gc_failing (clock world_xy (reads world_xy)) (ListAll (catalog world_xy))
      = [rec_x]"
    by (simp add: engine_eval example_defs)
  have e0: "eligible_list gc_batch0 (clock world_xy (reads world_xy)) (ListAll (catalog world_xy))
      = [rec_x]"
    by (simp add: engine_eval example_defs gc_batch0_def)
  have p: "HardDeleteEligible gc_failing (GCMetrics0, world_xy) = Some (m, w)
      \<Longrightarrow> payloads (new_calls world_xy w) = [''x''] \<and> ''x'' \<in> set (touched (new_calls world_xy w))"
    for m w
    by (simp add: engine_eval example_defs new_calls_def payloads_def touched_def) auto
  have y: "Get (catalog world_xy) ''y'' = Some rec_y"
    by (simp add: Get_def example_defs)
  have bs: "batchDeleteSize (opts gc_batch0) = 0"
    by (simp add: gc_batch0_def)
  note t = hard_delete_only_eligible [OF k, of gc_failing GCMetrics0]
  note t0 = hard_delete_only_eligible [OF k, of gc_batch0 GCMetrics0]
  from t obtain m w where r: "HardDeleteEligible gc_failing (GCMetrics0, world_xy) = Some (m, w)"
    by (cases "HardDeleteEligible gc_failing (GCMetrics0, world_xy)") (auto simp: example_defs)
  from t have a: "attempted (new_calls world_xy w) = [''x'']"
    and s: "set (touched (new_calls world_xy w)) \<subseteq> {''x''}"
    and g: "Get (catalog w) ''y'' = Get (catalog world_xy) ''y''"
    unfolding r e by (simp_all add: rec_x_def)
  have n: "HardDeleteEligible gc_batch0 (GCMetrics0, world_xy) = None"
    using t0 unfolding e0 bs
    by (cases "HardDeleteEligible gc_batch0 (GCMetrics0, world_xy)") auto
  have "set (touched (new_calls world_xy w)) = {''x''}"
    using s p [OF r] by blast
  then show ?thesis
    using k r a p [OF r] g y n by auto
qed






text \<open>
  C1, on the code. A pass over a catalog whose only record \<open>x\<close> is Tombstoned with
  its grace elapsed, with a store that fails the delete: the failure counter is 1,
  which is below the quarantine threshold 3, and the backoff and the error text are
  stored; but the record is left in Deleting, not Tombstoned. The finalization
  reverts the state in the catalog and then upserts its copy of the record, read
  before the revert, which still says Deleting.
\<close>

theorem retry_leaves_Deleting:
  "map_option (\<lambda>(metrics, w). (summary w, deleteFailed metrics, quarantined metrics))
      (RunOnce gc_failing world_x)
    = Some ([(''x'', Deleting, 1, Some (1003 + 20 * 1000000000), ''Delete failed'')], 1, 0)"
  by (simp add: engine_eval example_defs summary_def)

text \<open>
  C2, on the code. The same pass when the record has failed twice before: the third
  failure reaches the threshold, \<open>QUARANTINE\<close> is recorded and \<open>quarantined\<close> is 1, but
  the record is left in Deleting, not Quarantined, for the same reason.
\<close>

theorem quarantine_leaves_Deleting:
  "map_option (\<lambda>(metrics, w). (summary w, deleteFailed metrics, quarantined metrics,
        event_types (calls w)))
      (RunOnce gc_failing world_x2)
    = Some ([(''x'', Deleting, 3, Some (1003 + 80 * 1000000000), ''Delete failed'')], 1, 1,
        [''QUARANTINE''])"
  by (simp add: engine_eval example_defs summary_def event_types_def)

text \<open>
  C5, on the code. The loop over the newest \<open>keepLastN\<close> records does not skip Deleted
  records: with \<open>keepLastN = 1\<close> the Deleted record \<open>d\<close> takes the slot, is marked
  live and makes its parent \<open>p\<close> live, and the newest record that is not Deleted,
  \<open>a\<close>, is tombstoned by the pass.
\<close>

theorem Deleted_record_takes_keep_slot:
  "fst (ComputeLiveSet gc_keep1 (ListAll (catalog world_dap)) world_dap) = {''p'', ''d''}
   \<and> map_option (\<lambda>(metrics, w). (map (\<lambda>(i, s, _). (i, s)) (summary w), tombstoned metrics))
        (RunOnce gc_keep1 world_dap)
      = Some ([(''d'', Deleted), (''a'', Tombstoned), (''p'', Active)], 1)"
  by (simp add: engine_eval example_defs summary_def)

end
